theory Spec2Isabelle
  imports
    Complex_Main
    "HOL-Library.Word"
    "HOL-Library.Char_ord"
    "HOL-Library.List_Lexorder"
begin

section \<open>Shared data: errors, API calls, the environment\<close>

text \<open>
  A thrown JavaScript value, as far as the code inspects it: \<open>error?.response?.status\<close>,
  \<open>error?.response?.data?.error_code\<close> and \<open>error?.message\<close>. A field that is
  absent (\<open>undefined\<close>) is \<open>None\<close>.
\<close>

record js_error =
  response_status :: "nat option"
  response_error_code :: "string option"
  message :: "string option"

text \<open>\<open>TruthSocialPostOptions\<close> of post.ts: an outbox entry and the body of a status creation.\<close>

record TruthSocialPostOptions =
  status :: string
  in_reply_to_id :: "string option"
  quote_id :: "string option"
  media_ids :: "string list option"
  sensitive :: "bool option"
  spoiler_text :: "string option"
  visibility :: "string option"

text \<open>
  The calls the feature modules make through \<open>makeAuthenticatedRequest\<close>, by endpoint and
  body: \<open>POST /v1/statuses/{id}/favourite\<close>, \<open>POST /v1/statuses/{id}/reblog\<close>,
  \<open>POST /v1/accounts/{id}/follow\<close> and \<open>POST /v1/statuses\<close>.
\<close>

datatype api_call =
    Favourite string
  | Reblog string
  | Follow string
  | CreateStatus TruthSocialPostOptions

text \<open>
  What can be observed of a run, in the order it happens: a request issued, a content
  generation started (action tag and post id), the notification executor entered, a memory
  record created, \<open>login\<close> entered, the session probe of \<open>validateSession\<close>, the OAuth
  password grant, and a \<open>setTimeout\<close> sleep of so many milliseconds.
\<close>

datatype event =
    Request api_call
  | Generate string string
  | Execute string
  | CreateMemory string
  | LoginCall
  | ValidateSession
  | TokenRequest
  | Wait int

text \<open>
  The state every client shares through the runtime: the ids that have a memory record
  (\<open>runtime.messageManager\<close>; \<open>stringToUuid(id + "-" + agentId)\<close> is taken to be injective
  in \<open>id\<close>, so a record is keyed by \<open>id\<close>; creating a record does not fail) and the
  trace of observable events.
\<close>

record world =
  memory :: "string set"
  trace :: "event list"

definition emit :: "event \<Rightarrow> ('a world_scheme) \<Rightarrow> ('a world_scheme)" where
  "emit e w = w\<lparr>trace := trace w @ [e]\<rparr>"

text \<open>Posts and notifications as the monitors read them.\<close>

record TruthSocialPost =
  post_id :: string
  content :: string

record TruthSocialNotification =
  n_id :: string
  n_type :: string
  n_status :: "TruthSocialPost option"
  account_id :: string
  account_username :: string

text \<open>
  The decision of \<open>generateTweetActions\<close>, with the \<open>follow_back\<close> flag that
  notifications.ts reads from it (absent is \<open>False\<close>).
\<close>

record TruthSocialActionResponse =
  favourite :: bool
  reblog :: bool
  quote :: bool
  reply :: bool
  follow_back :: bool

text \<open>
  The collaborators of the monitors, as functions: \<open>request\<close> is
  \<open>makeAuthenticatedRequest\<close> as its callers see it (the response, or the thrown error);
  \<open>generateContent\<close> gives the text for an action tag and a post, or \<open>null\<close>;
  \<open>generateTweetActions\<close> gives the decision for a post or a notification, \<open>None\<close> when
  the call throws; \<open>isBlank s\<close> is \<open>!s?.trim()\<close>; \<open>processContent\<close> gives the
  \<open>processedContent\<close> of utils/content.ts; \<open>getUserTimeline\<close> gives the posts fetched for
  a username (empty when the fetch fails, as the method catches its errors).
\<close>

record env =
  request :: "api_call \<Rightarrow> js_error + string"
  generateContent :: "string \<Rightarrow> TruthSocialPost \<Rightarrow> string option"
  generateTweetActions_post :: "TruthSocialPost \<Rightarrow> TruthSocialActionResponse option"
  generateTweetActions_notification ::
    "TruthSocialNotification \<Rightarrow> TruthSocialActionResponse option"
  isBlank :: "string \<Rightarrow> bool"
  processContent :: "string \<Rightarrow> string"
  getUserTimeline :: "string \<Rightarrow> TruthSocialPost list"

section \<open>Post scheduler (post.ts)\<close>

record PostClient = world +
  isPosting :: bool
  postQueue :: "TruthSocialPostOptions list"
  postInterval :: "int option"

text \<open>
  \<open>createPost\<close>: the status-creation request with \<open>visibility\<close> defaulted to public; a
  failed request is rethrown, a successful one stores the post in memory under the id of
  the response. The response of a status creation is represented by its id.
\<close>

definition createPost ::
  "env \<Rightarrow> TruthSocialPostOptions \<Rightarrow> PostClient
    \<Rightarrow> (js_error + string) \<times> PostClient" where
  "createPost e options c =
     (let params = options\<lparr>visibility :=
            Some (case visibility options of
                    None \<Rightarrow> ''public''
                  | Some v \<Rightarrow> if v = [] then ''public'' else v)\<rparr>;
          c1 = emit (Request (CreateStatus params)) c
      in case request e (CreateStatus params) of
           Inl e \<Rightarrow> (Inl e, c1)
         | Inr rid \<Rightarrow> (Inr rid, (emit (CreateMemory rid) c1)\<lparr>memory := insert rid (memory c1)\<rparr>))"

text \<open>\<open>queuePost\<close>: \<open>this.postQueue.push(post)\<close>.\<close>

definition queuePost :: "TruthSocialPostOptions \<Rightarrow> PostClient \<Rightarrow> PostClient" where
  "queuePost post c = c\<lparr>postQueue := postQueue c @ [post]\<rparr>"

text \<open>
  \<open>processNextPost\<close>: nothing when posting is stopped or the queue is empty; otherwise the
  head is shifted off and created; when \<open>createPost\<close> throws, the entry is unshifted.
\<close>

definition processNextPost ::
  "env \<Rightarrow> PostClient \<Rightarrow> PostClient" where
  "processNextPost e c =
     (if \<not> isPosting c \<or> postQueue c = [] then c
      else case postQueue c of
             [] \<Rightarrow> c
           | post # rest \<Rightarrow>
               (case createPost e post (c\<lparr>postQueue := rest\<rparr>) of
                  (Inr _, c') \<Rightarrow> c'
                | (Inl _, c') \<Rightarrow> c'\<lparr>postQueue := post # postQueue c'\<rparr>))"

definition createPost_throws ::
  "env \<Rightarrow> TruthSocialPostOptions \<Rightarrow> PostClient \<Rightarrow> bool" where
  "createPost_throws e post c = (case fst (createPost e post c) of Inl _ \<Rightarrow> True | Inr _ \<Rightarrow> False)"

text \<open>
  \<open>generateAndQueuePost\<close>: the generated and cleaned text is queued as a public post;
  when generation throws (\<open>gen = None\<close>) the error is logged and nothing is queued.
\<close>

definition generateAndQueuePost :: "string option \<Rightarrow> PostClient \<Rightarrow> PostClient" where
  "generateAndQueuePost gen c =
     (case gen of
        None \<Rightarrow> c
      | Some cleanedPost \<Rightarrow>
          queuePost \<lparr>status = cleanedPost, in_reply_to_id = None, quote_id = None,
                     media_ids = None, sensitive = None, spoiler_text = None,
                     visibility = Some ''public''\<rparr> c)"

text \<open>
  \<open>getRandomInterval(min, max) = Math.floor(Math.random() * (max - min + 1) + min)\<close>, with
  the value \<open>r\<close> of \<open>Math.random()\<close> (\<open>0 \<le> r < 1\<close>) as an argument and real arithmetic
  in place of doubles.
\<close>

definition getRandomInterval :: "int \<Rightarrow> int \<Rightarrow> real \<Rightarrow> int" where
  "getRandomInterval lo hi r = \<lfloor>r * of_int (hi - lo + 1) + of_int lo\<rfloor>"

record PostConfig =
  POST_IMMEDIATELY :: bool
  POST_INTERVAL_MIN :: int
  POST_INTERVAL_MAX :: int

definition minInterval :: "PostConfig \<Rightarrow> int" where
  "minInterval cfg = (if POST_INTERVAL_MIN cfg = 0 then 90 else POST_INTERVAL_MIN cfg) * 60 * 1000"

definition maxInterval :: "PostConfig \<Rightarrow> int" where
  "maxInterval cfg = (if POST_INTERVAL_MAX cfg = 0 then 180 else POST_INTERVAL_MAX cfg) * 60 * 1000"

text \<open>
  The callback handed to \<open>setInterval\<close>: generate and queue a post, drain one entry, then
  draw \<open>nextInterval\<close> and log it. The drawn value goes to the log only (it is returned
  here beside the state); the timer is not touched.
\<close>

definition postIntervalCallback ::
  "env \<Rightarrow> PostConfig \<Rightarrow> string option \<Rightarrow> real \<Rightarrow> PostClient
    \<Rightarrow> int \<times> PostClient" where
  "postIntervalCallback e cfg gen r c =
     (let c1 = generateAndQueuePost gen c;
          c2 = processNextPost e c1;
          nextInterval = getRandomInterval (minInterval cfg) (maxInterval cfg) r
      in (nextInterval, c2))"

text \<open>
  \<open>startPostingLoop\<close>: a no-op when the loop already runs; the optional immediate post
  (the head of the queue is created and shifted off, a failure is logged and leaves it
  queued); then one interval is drawn and \<open>setInterval(callback, interval)\<close> arms the
  recurring timer, whose period is kept in \<open>postInterval\<close>.
\<close>

definition startPostingLoop ::
  "env \<Rightarrow> PostConfig \<Rightarrow> string option \<Rightarrow> real \<Rightarrow> PostClient
    \<Rightarrow> PostClient" where
  "startPostingLoop e cfg gen r c =
     (if isPosting c then c
      else
        let c1 = c\<lparr>isPosting := True\<rparr>;
            c2 = (if POST_IMMEDIATELY cfg then
                    (let c3 = generateAndQueuePost gen c1 in
                     case postQueue c3 of
                       [] \<Rightarrow> c3
                     | post # rest \<Rightarrow>
                         (case createPost e post c3 of
                            (Inr _, c4) \<Rightarrow> c4\<lparr>postQueue := tl (postQueue c4)\<rparr>
                          | (Inl _, c4) \<Rightarrow> c4))
                  else c1)
        in if minInterval cfg > 0 \<and> maxInterval cfg > 0
           then c2\<lparr>postInterval := Some (getRandomInterval (minInterval cfg) (maxInterval cfg) r)\<rparr>
           else c2)"

text \<open>
  The delays between successive firings of the armed timer: \<open>setInterval\<close> fires every
  \<open>postInterval\<close> milliseconds, with the callback run at each firing on that firing's
  generated text and random draw.
\<close>

fun firingDelays ::
  "env \<Rightarrow> PostConfig \<Rightarrow> (string option \<times> real) list \<Rightarrow> PostClient
    \<Rightarrow> int list" where
  "firingDelays e cfg [] c = []"
| "firingDelays e cfg ((gen, r) # rest) c =
     (case postInterval c of
        None \<Rightarrow> []
      | Some period \<Rightarrow>
          period # firingDelays e cfg rest (snd (postIntervalCallback e cfg gen r c)))"

section \<open>Session manager (base.ts)\<close>

text \<open>JavaScript truthiness of a \<open>string | null | undefined\<close> value.\<close>

definition truthy :: "string option \<Rightarrow> bool" where
  "truthy v = (case v of None \<Rightarrow> False | Some t \<Rightarrow> t \<noteq> [])"

text \<open>\<open>new Error(msg)\<close>: a message and no \<open>response\<close> property.\<close>

definition Error :: "string \<Rightarrow> js_error" where
  "Error msg = \<lparr>response_status = None, response_error_code = None, message = Some msg\<rparr>"

record TruthSocialConfig =
  TRUTHSOCIAL_USERNAME :: string
  TRUTHSOCIAL_RETRY_LIMIT :: int
  TRUTHSOCIAL_COOKIES :: "string option"
  TRUTHSOCIAL_AUTH_TOKEN :: "string option"

text \<open>
  The browser page's answers, indexed by how many calls of each kind came before:
  whether the \<open>verify_credentials\<close> probe answers ok (a probe that throws counts as not
  ok, as \<open>validateSession\<close> catches it), what the OAuth token endpoint answers, what an
  API fetch answers, and whether the configured cookies parse and can be set.
\<close>

record http_response =
  ok :: bool
  http_status :: nat
  data :: string

datatype grant_outcome =
    GrantRejected nat
  | GrantUnparsable
  | GrantToken "string option"

record transport =
  probe :: "nat \<Rightarrow> bool"
  grant :: "nat \<Rightarrow> grant_outcome"
  response :: "nat \<Rightarrow> http_response"
  cookiesUsable :: bool

text \<open>
  The process-wide session: the static \<open>authToken\<close>, the keys of the static
  \<open>_truthSocialClients\<close>, the token in the cache as \<open>getCachedToken\<close> returns it (decrypted;
  \<open>None\<close> when absent or undecryptable), and the number of probes, grants and fetches made.
\<close>

record session = world +
  authToken :: "string option"
  truthSocialClients :: "string set"
  cachedToken :: "string option"
  probes :: nat
  grants :: nat
  fetches :: nat

definition validateSession :: "transport \<Rightarrow> session \<Rightarrow> bool \<times> session" where
  "validateSession tr s =
     (if \<not> truthy (authToken s) then (False, s)
      else (probe tr (probes s), emit ValidateSession (s\<lparr>probes := Suc (probes s)\<rparr>)))"

text \<open>
  The password grant at the end of \<open>login\<close>: a rejected or unparsable answer throws; a
  parsed answer overwrites \<open>authToken\<close> with its \<open>access_token\<close> and caches it
  (\<open>encrypt\<close> throws on \<open>undefined\<close>), and a falsy token then throws.
\<close>

definition passwordGrant :: "transport \<Rightarrow> session \<Rightarrow> (js_error + unit) \<times> session" where
  "passwordGrant tr s =
     (let s1 = emit TokenRequest (s\<lparr>grants := Suc (grants s)\<rparr>)
      in case grant tr (grants s) of
           GrantRejected st \<Rightarrow> (Inl (Error ''Login failed''), s1)
         | GrantUnparsable \<Rightarrow> (Inl (Error ''Unexpected token''), s1)
         | GrantToken None \<Rightarrow> (Inl (Error ''Invalid argument''), s1\<lparr>authToken := None\<rparr>)
         | GrantToken (Some t) \<Rightarrow>
             (let s2 = s1\<lparr>authToken := Some t, cachedToken := Some t\<rparr>
              in if \<not> truthy (authToken s2)
                 then (Inl (Error ''No auth token received from login response''), s2)
                 else (Inr (), s2)))"

text \<open>
  \<open>login\<close>: the configured cookies and token first (adopted when the probe accepts
  them), then the cached token (likewise), then the password grant.
\<close>

definition login :: "transport \<Rightarrow> TruthSocialConfig \<Rightarrow> session \<Rightarrow> (js_error + unit) \<times> session" where
  "login tr cfg s =
     (let s0 = emit LoginCall s;
          (fromEnv, s1) =
            (if truthy (TRUTHSOCIAL_COOKIES cfg) \<and> truthy (TRUTHSOCIAL_AUTH_TOKEN cfg)
                \<and> cookiesUsable tr
             then validateSession tr (s0\<lparr>authToken := TRUTHSOCIAL_AUTH_TOKEN cfg\<rparr>)
             else (False, s0))
      in if fromEnv then (Inr (), s1)
         else if truthy (cachedToken s1) then
           (case validateSession tr (s1\<lparr>authToken := cachedToken s1\<rparr>) of
              (True, s2) \<Rightarrow> (Inr (), s2)
            | (False, s2) \<Rightarrow> passwordGrant tr s2)
         else passwordGrant tr s1)"

lemma validateSession_truthy:
  "validateSession tr s = (True, s') \<Longrightarrow> authToken s' = authToken s \<and> truthy (authToken s)"
  by (auto simp: validateSession_def emit_def split: if_splits)

lemma passwordGrant_truthy: "passwordGrant tr s = (Inr u, s') \<Longrightarrow> truthy (authToken s')"
  by (auto simp: passwordGrant_def Let_def split: grant_outcome.splits option.splits if_splits)

lemma login_truthy:
  assumes "login tr cfg s = (Inr u, s')"
  shows "truthy (authToken s')"
proof -
  let ?s0 = "emit LoginCall s"
  obtain fromEnv s1 where e:
    "(if truthy (TRUTHSOCIAL_COOKIES cfg) \<and> truthy (TRUTHSOCIAL_AUTH_TOKEN cfg) \<and> cookiesUsable tr
      then validateSession tr (?s0\<lparr>authToken := TRUTHSOCIAL_AUTH_TOKEN cfg\<rparr>)
      else (False, ?s0)) = (fromEnv, s1)"
    by (metis surj_pair)
  show ?thesis
  proof (cases fromEnv)
    case True
    with e assms have "s' = s1" by (simp add: login_def Let_def)
    moreover from e True have "truthy (authToken s1)"
      by (auto split: if_splits dest!: validateSession_truthy)
    ultimately show ?thesis by simp
  next
    case False
    show ?thesis
    proof (cases "truthy (cachedToken s1)")
      case c: True
      obtain v s2 where v: "validateSession tr (s1\<lparr>authToken := cachedToken s1\<rparr>) = (v, s2)"
        by (metis surj_pair)
      show ?thesis
      proof (cases v)
        case True
        with e False c v assms have "s' = s2" by (simp add: login_def Let_def)
        moreover from v True have "truthy (authToken s2)"
          by (auto dest!: validateSession_truthy)
        ultimately show ?thesis by simp
      next
        case f: False
        with e False c v assms have "passwordGrant tr s2 = (Inr u, s')"
          by (simp add: login_def Let_def)
        then show ?thesis by (rule passwordGrant_truthy)
      qed
    next
      case c: False
      with e False assms have "passwordGrant tr s1 = (Inr u, s')"
        by (simp add: login_def Let_def)
      then show ?thesis by (rule passwordGrant_truthy)
    qed
  qed
qed

text \<open>
  The retry loop of \<open>init\<close> (\<open>while (retries > 0)\<close>): a login that returns with a token
  registers the client; a login that throws costs one retry, ends the loop with the
  exhaustion error when none is left, and otherwise sleeps
  \<open>Math.pow(2, RETRY_LIMIT - retries) * 1000\<close> ms. \<open>retries\<close> never exceeds the limit, so
  the exponent is a natural number.
\<close>

function init_loop ::
  "transport \<Rightarrow> TruthSocialConfig \<Rightarrow> int \<Rightarrow> session \<Rightarrow> (js_error + unit) \<times> session" where
  "init_loop tr cfg retries s =
     (if retries > 0 then
        (case login tr cfg s of
           (Inr u, s1) \<Rightarrow>
             if truthy (authToken s1)
             then (Inr (), s1\<lparr>truthSocialClients :=
                     insert (TRUTHSOCIAL_USERNAME cfg) (truthSocialClients s1)\<rparr>)
             else init_loop tr cfg retries s1
         | (Inl e, s1) \<Rightarrow>
             if retries - 1 = 0
             then (Inl (Error ''Truth Social login failed after maximum retries''), s1)
             else init_loop tr cfg (retries - 1)
                    (emit (Wait (2 ^ nat (TRUTHSOCIAL_RETRY_LIMIT cfg - (retries - 1)) * 1000)) s1))
      else (Inr (), s))"
  by pat_completeness auto
termination
  by (relation "measure (\<lambda>(tr, cfg, retries, s). nat retries)")
    (auto dest: login_truthy [OF sym])

declare init_loop.simps [simp del]

text \<open>
  \<open>init\<close>: immediate return for a registered username; a cached token that the probe
  accepts is adopted; otherwise the retry loop.
\<close>

definition init :: "transport \<Rightarrow> TruthSocialConfig \<Rightarrow> session \<Rightarrow> (js_error + unit) \<times> session" where
  "init tr cfg s =
     (if TRUTHSOCIAL_USERNAME cfg \<in> truthSocialClients s then (Inr (), s)
      else
        let (valid, s1) =
              (if truthy (cachedToken s)
               then validateSession tr (s\<lparr>authToken := cachedToken s\<rparr>)
               else (False, s))
        in if valid
           then (Inr (), s1\<lparr>truthSocialClients :=
                   insert (TRUTHSOCIAL_USERNAME cfg) (truthSocialClients s1)\<rparr>)
           else init_loop tr cfg (TRUTHSOCIAL_RETRY_LIMIT cfg) s1)"

text \<open>Template-literal printing of a status code.\<close>

fun showNat :: "nat \<Rightarrow> string" where
  "showNat n =
     (if n < 10 then [''0123456789'' ! n]
      else showNat (n div 10) @ [''0123456789'' ! (n mod 10)])"

declare showNat.simps [simp del]

text \<open>
  \<open>makeAuthenticatedRequest\<close>. Without a token it initialises first. Then it fetches; an
  ok response returns its data; a 401 response calls \<open>login\<close> and then
  \<open>makeAuthenticatedRequest\<close> again with the same arguments; any other failure throws
  \<open>Request failed\<close> with the status and the body in the message (\<open>data\<close> stands for
  \<open>JSON.stringify(response.data)\<close>). The recursion has no bound of its own, so the model
  takes fuel: \<open>None\<close> is a call that has not returned within that many fetches.
\<close>

fun makeAuthenticatedRequest ::
  "nat \<Rightarrow> transport \<Rightarrow> TruthSocialConfig \<Rightarrow> api_call \<Rightarrow> session
    \<Rightarrow> ((js_error + string) \<times> session) option" where
  "makeAuthenticatedRequest 0 tr cfg call s = None"
| "makeAuthenticatedRequest (Suc fuel) tr cfg call s =
     (case (if \<not> truthy (authToken s) then
              (case init tr cfg s of
                 (Inl e, s1) \<Rightarrow> (Some e, s1)
               | (Inr u, s1) \<Rightarrow>
                   if \<not> truthy (authToken s1)
                   then (Some (Error ''Not authenticated - failed to obtain auth token''), s1)
                   else (None, s1))
            else (None, s)) of
        (Some e, s1) \<Rightarrow> Some (Inl e, s1)
      | (None, s1) \<Rightarrow>
          (let resp = response tr (fetches s1);
               s2 = emit (Request call) (s1\<lparr>fetches := Suc (fetches s1)\<rparr>)
           in if \<not> ok resp then
                if http_status resp = 401 then
                  (case login tr cfg s2 of
                     (Inl e, s3) \<Rightarrow> Some (Inl e, s3)
                   | (Inr u, s3) \<Rightarrow> makeAuthenticatedRequest fuel tr cfg call s3)
                else Some (Inl (Error (''Request failed: '' @ showNat (http_status resp)
                                         @ '' '' @ data resp)), s2)
              else Some (Inr (data resp), s2)))"

section \<open>Action executor (base.ts, base-monitor.ts, search.ts, notifications.ts)\<close>

text \<open>\<open>String.prototype.includes\<close> on byte strings.\<close>

fun startsWith :: "string \<Rightarrow> string \<Rightarrow> bool" where
  "startsWith s [] = True"
| "startsWith [] (p # ps) = False"
| "startsWith (c # cs) (p # ps) = (c = p \<and> startsWith cs ps)"

fun str_includes :: "string \<Rightarrow> string \<Rightarrow> bool" where
  "str_includes [] p = (p = [])"
| "str_includes (c # cs) p = (startsWith (c # cs) p \<or> str_includes cs p)"

text \<open>
  \<open>isGroupError\<close>, the same in base.ts and base-monitor.ts: status 404 on
  \<open>error.response\<close> together with the group error code or one of two message fragments.
\<close>

definition isGroupError :: "js_error \<Rightarrow> bool" where
  "isGroupError error =
     (response_status error = Some 404 \<and>
      (response_error_code error = Some ''GROUP_NOT_FOUND'' \<or>
       (case message error of None \<Rightarrow> False | Some m \<Rightarrow> str_includes m ''GROUP_NOT_FOUND'') \<or>
       (case message error of None \<Rightarrow> False
        | Some m \<Rightarrow> str_includes m ''You cannot post to this group'')))"

text \<open>The object literal \<open>{}\<close>.\<close>

definition empty_object :: js_error where
  "empty_object = \<lparr>response_status = None, response_error_code = None, message = None\<rparr>"

definition quoteParams :: "string \<Rightarrow> string \<Rightarrow> TruthSocialPostOptions" where
  "quoteParams text pid =
     \<lparr>status = text, in_reply_to_id = None, quote_id = Some pid, media_ids = None,
      sensitive = None, spoiler_text = None, visibility = None\<rparr>"

definition replyParams :: "string \<Rightarrow> string \<Rightarrow> TruthSocialPostOptions" where
  "replyParams text pid =
     \<lparr>status = text, in_reply_to_id = Some pid, quote_id = None, media_ids = None,
      sensitive = None, spoiler_text = None, visibility = None\<rparr>"

text \<open>
  The monitors' state: the re-entrancy flag, the processed-id set, the notification
  client's last id, the search client's watermark per username and its acted-on set.
\<close>

record monitor = world +
  isProcessing :: bool
  processedItems :: "string set"
  lastCheckedNotificationId :: "string option"
  lastCheckedPosts :: "string \<rightharpoonup> string"
  actedOnPosts :: "string set"

subsection \<open>ClientBase.handlePostActions (base.ts)\<close>

text \<open>
  One \<open>try\<close> block of the inline favourite and reblog steps of base.ts and search.ts: the
  request, the tag pushed on success, \<open>isGroupPost\<close> raised when the caught error is a
  group error.
\<close>

definition simpleAction ::
  "env \<Rightarrow> api_call \<Rightarrow> string \<Rightarrow> string list \<times> bool \<times> 'a world_scheme
    \<Rightarrow> string list \<times> bool \<times> 'a world_scheme" where
  "simpleAction e call tag st =
     (case st of (executedActions, isGroupPost, w) \<Rightarrow>
        (case request e call of
           Inr r \<Rightarrow> (executedActions @ [tag], isGroupPost, emit (Request call) w)
         | Inl error \<Rightarrow>
             (executedActions, (if isGroupError error then True else isGroupPost),
              emit (Request call) w)))"

text \<open>
  One \<open>try\<close> block of the inline quote and reply steps: generate the content, and when
  it is truthy post it and push the tag; a thrown error is caught and logged.
\<close>

definition contentAction ::
  "env \<Rightarrow> TruthSocialPost \<Rightarrow> string \<Rightarrow> (string \<Rightarrow> string \<Rightarrow> TruthSocialPostOptions)
    \<Rightarrow> string list \<times> 'a world_scheme \<Rightarrow> string list \<times> 'a world_scheme" where
  "contentAction e post tag params st =
     (case st of (executedActions, w) \<Rightarrow>
        (let w1 = emit (Generate tag (post_id post)) w
         in case generateContent e tag post of
              None \<Rightarrow> (executedActions, w1)
            | Some text \<Rightarrow>
                if text = [] then (executedActions, w1)
                else
                  (let call = CreateStatus (params text (post_id post));
                       w2 = emit (Request call) w1
                   in case request e call of
                        Inr r \<Rightarrow> (executedActions @ [tag], w2)
                      | Inl error \<Rightarrow> (executedActions, w2))))"

text \<open>The four commented blocks of the inline implementations.\<close>

definition inlineFavouriteBlock ::
  "env \<Rightarrow> TruthSocialPost \<Rightarrow> TruthSocialActionResponse \<Rightarrow> 'a world_scheme
    \<Rightarrow> string list \<times> bool \<times> 'a world_scheme" where
  "inlineFavouriteBlock e post truthSocialResponse w =
     (if favourite truthSocialResponse
      then simpleAction e (Favourite (post_id post)) ''FAVOURITE'' ([], False, w)
      else ([], False, w))"

definition inlineQuoteBlock ::
  "env \<Rightarrow> TruthSocialPost \<Rightarrow> TruthSocialActionResponse \<Rightarrow> string list \<times> 'a world_scheme
    \<Rightarrow> string list \<times> 'a world_scheme" where
  "inlineQuoteBlock e post truthSocialResponse st =
     (if quote truthSocialResponse
      then contentAction e post ''QUOTE'' quoteParams st else st)"

definition inlineReplyBlock ::
  "env \<Rightarrow> TruthSocialPost \<Rightarrow> TruthSocialActionResponse \<Rightarrow> string list \<times> 'a world_scheme
    \<Rightarrow> string list \<times> 'a world_scheme" where
  "inlineReplyBlock e post truthSocialResponse st =
     (if reply truthSocialResponse
      then contentAction e post ''REPLY'' replyParams st else st)"

text \<open>In base.ts the reblog block runs whenever reblog is requested.\<close>

definition ClientBase_reblogBlock ::
  "env \<Rightarrow> TruthSocialPost \<Rightarrow> TruthSocialActionResponse
    \<Rightarrow> string list \<times> bool \<times> 'a world_scheme \<Rightarrow> string list \<times> bool \<times> 'a world_scheme" where
  "ClientBase_reblogBlock e post truthSocialResponse st =
     (if reblog truthSocialResponse
      then simpleAction e (Reblog (post_id post)) ''REBLOG'' st else st)"

definition ClientBase_handlePostActions ::
  "env \<Rightarrow> TruthSocialPost \<Rightarrow> string \<Rightarrow> TruthSocialActionResponse \<Rightarrow> 'a world_scheme
    \<Rightarrow> string list \<times> 'a world_scheme" where
  "ClientBase_handlePostActions e post username truthSocialResponse w =
     (case ClientBase_reblogBlock e post truthSocialResponse
             (inlineFavouriteBlock e post truthSocialResponse w) of
        (executedActions, isGroupPost, w2) \<Rightarrow>
          if isGroupPost then (executedActions, w2)
          else inlineReplyBlock e post truthSocialResponse
                 (inlineQuoteBlock e post truthSocialResponse (executedActions, w2)))"

subsection \<open>SearchClient.handlePostActions (search.ts)\<close>

text \<open>As in base.ts, except that the reblog block is skipped once \<open>isGroupPost\<close> is set.\<close>

definition SearchClient_reblogBlock ::
  "env \<Rightarrow> TruthSocialPost \<Rightarrow> TruthSocialActionResponse
    \<Rightarrow> string list \<times> bool \<times> 'a world_scheme \<Rightarrow> string list \<times> bool \<times> 'a world_scheme" where
  "SearchClient_reblogBlock e post truthSocialResponse st =
     (if reblog truthSocialResponse \<and> \<not> fst (snd st)
      then simpleAction e (Reblog (post_id post)) ''REBLOG'' st else st)"

definition SearchClient_handlePostActions ::
  "env \<Rightarrow> TruthSocialPost \<Rightarrow> string \<Rightarrow> TruthSocialActionResponse \<Rightarrow> 'a world_scheme
    \<Rightarrow> string list \<times> 'a world_scheme" where
  "SearchClient_handlePostActions e post username truthSocialResponse w =
     (case SearchClient_reblogBlock e post truthSocialResponse
             (inlineFavouriteBlock e post truthSocialResponse w) of
        (executedActions, isGroupPost, w2) \<Rightarrow>
          if isGroupPost then (executedActions, w2)
          else inlineReplyBlock e post truthSocialResponse
                 (inlineQuoteBlock e post truthSocialResponse (executedActions, w2)))"

subsection \<open>BaseMonitorClient (base-monitor.ts)\<close>

text \<open>
  \<open>storeInMemory\<close>: nothing is stored for blank content or blank processed content;
  otherwise the memory record is created and the id joins \<open>processedItems\<close>.
\<close>

definition storeInMemory :: "env \<Rightarrow> string \<Rightarrow> string \<Rightarrow> monitor \<Rightarrow> monitor" where
  "storeInMemory e ident body m =
     (if isBlank e body then m
      else if isBlank e (processContent e body) then m
      else (emit (CreateMemory ident) m)
             \<lparr>memory := insert ident (memory m),
              processedItems := insert ident (processedItems m)\<rparr>)"

text \<open>
  \<open>handleFavourite\<close> and \<open>handleReblog\<close>: \<open>true\<close> when the request returns, \<open>false\<close>
  when it throws; the caught error is classified for the log line only.
\<close>

definition handleFavourite :: "env \<Rightarrow> TruthSocialPost \<Rightarrow> monitor \<Rightarrow> bool \<times> monitor" where
  "handleFavourite e post m =
     (case request e (Favourite (post_id post)) of
        Inr r \<Rightarrow> (True, emit (Request (Favourite (post_id post))) m)
      | Inl error \<Rightarrow> (False, emit (Request (Favourite (post_id post))) m))"

definition handleReblog :: "env \<Rightarrow> TruthSocialPost \<Rightarrow> monitor \<Rightarrow> bool \<times> monitor" where
  "handleReblog e post m =
     (case request e (Reblog (post_id post)) of
        Inr r \<Rightarrow> (True, emit (Request (Reblog (post_id post))) m)
      | Inl error \<Rightarrow> (False, emit (Request (Reblog (post_id post))) m))"

text \<open>
  \<open>handleQuote\<close> and \<open>handleReply\<close>: the generated content when it is truthy and the
  status was posted, \<open>null\<close> otherwise.
\<close>

definition handleContent ::
  "env \<Rightarrow> TruthSocialPost \<Rightarrow> string \<Rightarrow> (string \<Rightarrow> string \<Rightarrow> TruthSocialPostOptions)
    \<Rightarrow> monitor \<Rightarrow> string option \<times> monitor" where
  "handleContent e post tag params m =
     (let m1 = emit (Generate tag (post_id post)) m
      in case generateContent e tag post of
           None \<Rightarrow> (None, m1)
         | Some text \<Rightarrow>
             if text = [] then (None, m1)
             else
               (let call = CreateStatus (params text (post_id post));
                    m2 = emit (Request call) m1
                in case request e call of
                     Inr r \<Rightarrow> (Some text, m2)
                   | Inl error \<Rightarrow> (None, m2)))"

definition handleQuote :: "env \<Rightarrow> TruthSocialPost \<Rightarrow> monitor \<Rightarrow> string option \<times> monitor" where
  "handleQuote e post m = handleContent e post ''QUOTE'' quoteParams m"

definition handleReply :: "env \<Rightarrow> TruthSocialPost \<Rightarrow> monitor \<Rightarrow> string option \<times> monitor" where
  "handleReply e post m = handleContent e post ''REPLY'' replyParams m"

text \<open>
  \<open>BaseMonitorClient.handlePostActions\<close>, the one the notifications client inherits, by
  its four commented blocks. After a failed favourite or reblog, \<open>isGroupPost\<close> is raised
  when \<open>this.isGroupError({})\<close> holds, the classifier applied to an empty object.
\<close>

definition favouriteBlock ::
  "env \<Rightarrow> TruthSocialPost \<Rightarrow> TruthSocialActionResponse \<Rightarrow> monitor
    \<Rightarrow> string list \<times> bool \<times> monitor" where
  "favouriteBlock e post truthSocialResponse m0 =
     (if favourite truthSocialResponse then
        (case handleFavourite e post m0 of
           (True, m') \<Rightarrow> ([''FAVOURITE''], False, m')
         | (False, m') \<Rightarrow> ([], (if isGroupError empty_object then True else False), m'))
      else ([], False, m0))"

definition reblogBlock ::
  "env \<Rightarrow> TruthSocialPost \<Rightarrow> TruthSocialActionResponse \<Rightarrow> string list \<times> bool \<times> monitor
    \<Rightarrow> string list \<times> bool \<times> monitor" where
  "reblogBlock e post truthSocialResponse st =
     (case st of (executedActions, isGroupPost, m1) \<Rightarrow>
        if reblog truthSocialResponse \<and> \<not> isGroupPost then
          (case handleReblog e post m1 of
             (True, m') \<Rightarrow> (executedActions @ [''REBLOG''], isGroupPost, m')
           | (False, m') \<Rightarrow>
               (executedActions, (if isGroupError empty_object then True else isGroupPost), m'))
        else (executedActions, isGroupPost, m1))"

definition quoteBlock ::
  "env \<Rightarrow> TruthSocialPost \<Rightarrow> TruthSocialActionResponse \<Rightarrow> string list \<times> monitor
    \<Rightarrow> string list \<times> monitor" where
  "quoteBlock e post truthSocialResponse st =
     (case st of (executedActions, m2) \<Rightarrow>
        if quote truthSocialResponse then
          (case handleQuote e post m2 of
             (Some quoteContent, m') \<Rightarrow>
               if quoteContent = [] then (executedActions, m')
               else (executedActions @ [''QUOTE''],
                     storeInMemory e (post_id post @ ''-quote'') quoteContent m')
           | (None, m') \<Rightarrow> (executedActions, m'))
        else (executedActions, m2))"

definition replyBlock ::
  "env \<Rightarrow> TruthSocialPost \<Rightarrow> TruthSocialActionResponse \<Rightarrow> string list \<times> monitor
    \<Rightarrow> string list \<times> monitor" where
  "replyBlock e post truthSocialResponse st =
     (case st of (executedActions, m3) \<Rightarrow>
        if reply truthSocialResponse then
          (case handleReply e post m3 of
             (Some replyContent, m') \<Rightarrow>
               if replyContent = [] then (executedActions, m')
               else (executedActions @ [''REPLY''],
                     storeInMemory e (post_id post @ ''-reply'') replyContent m')
           | (None, m') \<Rightarrow> (executedActions, m'))
        else (executedActions, m3))"

definition BaseMonitorClient_handlePostActions ::
  "env \<Rightarrow> TruthSocialPost \<Rightarrow> string \<Rightarrow> TruthSocialActionResponse \<Rightarrow> monitor
    \<Rightarrow> string list \<times> monitor" where
  "BaseMonitorClient_handlePostActions e post username truthSocialResponse m =
     (let m0 = storeInMemory e (post_id post) (content post) m
      in case reblogBlock e post truthSocialResponse
                (favouriteBlock e post truthSocialResponse m0) of
           (executedActions, isGroupPost, m2) \<Rightarrow>
             if isGroupPost then (executedActions, m2)
             else replyBlock e post truthSocialResponse
                    (quoteBlock e post truthSocialResponse (executedActions, m2)))"

subsection \<open>NotificationsClient (notifications.ts)\<close>

text \<open>
  \<open>executeNotificationActions\<close>: the follow-back block, for a follow notification whose
  decision asks for it, and then the post actions when the notification carries a status.
\<close>

definition executeNotificationActions ::
  "env \<Rightarrow> TruthSocialNotification \<Rightarrow> TruthSocialActionResponse \<Rightarrow> monitor
    \<Rightarrow> string list \<times> monitor" where
  "executeNotificationActions e notification actionResponse m =
     (let m0 = emit (Execute (n_id notification)) m;
          (executed1, m1) =
            (if n_type notification = ''follow'' \<and> follow_back actionResponse then
               (case request e (Follow (account_id notification)) of
                  Inr r \<Rightarrow> ([''FOLLOW_BACK''], emit (Request (Follow (account_id notification))) m0)
                | Inl error \<Rightarrow> ([], emit (Request (Follow (account_id notification))) m0))
             else ([], m0))
      in case n_status notification of
           None \<Rightarrow> (executed1, m1)
         | Some post \<Rightarrow>
             (case BaseMonitorClient_handlePostActions e post (account_username notification)
                     actionResponse m1 of
                (postActions, m2) \<Rightarrow> (executed1 @ postActions, m2)))"

text \<open>
  \<open>handleNotification\<close>: the decision (a throw leaves the handler at once), the actions,
  and the notification's own memory record, whose content is the status content or the
  empty string.
\<close>

definition handleNotification ::
  "env \<Rightarrow> TruthSocialNotification \<Rightarrow> monitor \<Rightarrow> (unit + unit) \<times> monitor" where
  "handleNotification e notification m =
     (case generateTweetActions_notification e notification of
        None \<Rightarrow> (Inl (), m)
      | Some actionResponse \<Rightarrow>
          (case executeNotificationActions e notification actionResponse m of
             (executedActions, m1) \<Rightarrow>
               (Inr (), storeInMemory e (n_id notification)
                          (case n_status notification of None \<Rightarrow> [] | Some post \<Rightarrow> content post)
                          m1)))"

text \<open>
  One turn of the loop of \<open>checkItems\<close>: an id in \<open>processedItems\<close> is skipped; an id
  with a memory record is added to \<open>processedItems\<close> and skipped; otherwise the
  notification is handled and, unless the handler threw, recorded as last checked and
  processed.
\<close>

definition notificationStep :: "env \<Rightarrow> TruthSocialNotification \<Rightarrow> monitor \<Rightarrow> monitor" where
  "notificationStep e notification m =
     (if n_id notification \<in> processedItems m then m
      else if n_id notification \<in> memory m
      then m\<lparr>processedItems := insert (n_id notification) (processedItems m)\<rparr>
      else
        (case handleNotification e notification m of
           (Inr u, m1) \<Rightarrow>
             m1\<lparr>lastCheckedNotificationId := Some (n_id notification),
                processedItems := insert (n_id notification) (processedItems m1)\<rparr>
         | (Inl u, m1) \<Rightarrow> m1))"

fun notificationLoop :: "env \<Rightarrow> TruthSocialNotification list \<Rightarrow> monitor \<Rightarrow> monitor" where
  "notificationLoop e [] m = m"
| "notificationLoop e (notification # rest) m =
     notificationLoop e rest (notificationStep e notification m)"

text \<open>
  \<open>NotificationsClient.checkItems\<close>, on the list that \<open>fetchNotifications\<close> returned in
  this iteration (newest first; empty when the fetch failed).
\<close>

definition NotificationsClient_checkItems ::
  "env \<Rightarrow> TruthSocialNotification list \<Rightarrow> monitor \<Rightarrow> monitor" where
  "NotificationsClient_checkItems e notifications m =
     (if isProcessing m then m
      else
        (let m0 = m\<lparr>isProcessing := True\<rparr>;
             m1 = (if notifications = [] then m0 else notificationLoop e (rev notifications) m0)
         in m1\<lparr>isProcessing := False\<rparr>))"

subsection \<open>SearchClient (search.ts)\<close>

text \<open>
  \<open>processPost\<close>: a post with a memory record is marked processed and left alone.
  Otherwise, when actions are wanted and the post was not acted on before, the decision
  is taken (a throw is caught at the end of \<open>processPost\<close>: nothing more happens) and the
  actions run; then the post is stored.
\<close>

definition processPost ::
  "env \<Rightarrow> TruthSocialPost \<Rightarrow> string \<Rightarrow> bool \<Rightarrow> monitor \<Rightarrow> monitor" where
  "processPost e post username shouldTakeActions m =
     (if post_id post \<in> memory m
      then m\<lparr>processedItems := insert (post_id post) (processedItems m)\<rparr>
      else if shouldTakeActions \<and> post_id post \<notin> actedOnPosts m then
        (case generateTweetActions_post e post of
           None \<Rightarrow> m
         | Some actionResponse \<Rightarrow>
             (case SearchClient_handlePostActions e post username actionResponse m of
                (executedActions, m1) \<Rightarrow>
                  storeInMemory e (post_id post) (content post)
                    (if executedActions \<noteq> []
                     then m1\<lparr>actedOnPosts := insert (post_id post) (actedOnPosts m1)\<rparr>
                     else m1)))
      else storeInMemory e (post_id post) (content post) m)"

fun processPosts ::
  "env \<Rightarrow> string \<Rightarrow> (TruthSocialPost \<Rightarrow> bool) \<Rightarrow> TruthSocialPost list \<Rightarrow> monitor \<Rightarrow> monitor" where
  "processPosts e username isNew [] m = m"
| "processPosts e username isNew (post # rest) m =
     processPosts e username isNew rest (processPost e post username (isNew post) m)"

text \<open>
  The body of the loop over the target users: fetch the timeline; nothing on an empty
  fetch; on the first fetch for the username (a falsy watermark) every post is processed
  without actions, later a post is new when its id is greater than the watermark as a
  string; then the watermark is set to \<open>posts[0].id\<close>.
\<close>

definition checkUser :: "env \<Rightarrow> string \<Rightarrow> monitor \<Rightarrow> monitor" where
  "checkUser e username m =
     (let lastKnownPostId = lastCheckedPosts m username;
          posts = getUserTimeline e username
      in case posts of
           [] \<Rightarrow> m
         | first # others \<Rightarrow>
             (let isFirstFetch = \<not> truthy lastKnownPostId;
                  m1 = (if isFirstFetch
                        then processPosts e username (\<lambda>post. False) posts m
                        else processPosts e username
                               (\<lambda>post. case lastKnownPostId of
                                         None \<Rightarrow> False
                                       | Some lastKnown \<Rightarrow> post_id post > lastKnown)
                               posts m)
              in m1\<lparr>lastCheckedPosts := (lastCheckedPosts m1)(username \<mapsto> post_id first)\<rparr>))"

fun checkUsers :: "env \<Rightarrow> string list \<Rightarrow> monitor \<Rightarrow> monitor" where
  "checkUsers e [] m = m"
| "checkUsers e (username # rest) m = checkUsers e rest (checkUser e username m)"

definition SearchClient_checkItems :: "env \<Rightarrow> string list \<Rightarrow> monitor \<Rightarrow> monitor" where
  "SearchClient_checkItems e targetUsers m =
     (if isProcessing m then m
      else if targetUsers = [] then m
      else (checkUsers e targetUsers (m\<lparr>isProcessing := True\<rparr>))\<lparr>isProcessing := False\<rparr>)"

section \<open>Credential encryption (utils/encryption.ts)\<close>

type_synonym byte = "8 word"

text \<open>
  A JavaScript string is a sequence of UTF-16 code units. The text that is encrypted is
  modelled as such; the stored data, which \<open>encrypt\<close> builds from hex digits and colons,
  and error messages are modelled as 8-bit characters.
\<close>

type_synonym utf16 = "16 word"
type_synonym js_string = "utf16 list"

text \<open>
  The AES-256-GCM primitive of Node's \<open>crypto\<close> module, which the repository calls and
  does not contain. \<open>gcm_encrypt key iv plaintext\<close> is \<open>createCipheriv\<close>, \<open>update\<close>,
  \<open>final\<close> and \<open>getAuthTag\<close>: the ciphertext and the authentication tag.
  \<open>gcm_setup key iv tag\<close> is \<open>createDecipheriv\<close> and \<open>setAuthTag\<close>: the error they throw,
  if any. \<open>gcm_decrypt key iv tag ciphertext\<close> is \<open>update\<close> and \<open>final\<close> of the decipher:
  the plaintext, or the error thrown.
\<close>

record cipher =
  gcm_encrypt :: "byte list \<Rightarrow> byte list \<Rightarrow> byte list \<Rightarrow> byte list \<times> byte list"
  gcm_setup :: "byte list \<Rightarrow> byte list \<Rightarrow> byte list \<Rightarrow> js_error option"
  gcm_decrypt :: "byte list \<Rightarrow> byte list \<Rightarrow> byte list \<Rightarrow> byte list \<Rightarrow> js_error + byte list"

text \<open>
  The \<open>'utf8'\<close> input encoding of \<open>cipher.update\<close>. The string is read as code points: a
  high surrogate followed by a low one is the code point of the pair, and a surrogate
  without its partner is replaced by U+FFFD. Each code point is then written as its UTF-8
  sequence of one to four bytes.
\<close>

definition isHighSurrogate :: "nat \<Rightarrow> bool" where
  "isHighSurrogate u = (0xD800 \<le> u \<and> u \<le> 0xDBFF)"

definition isLowSurrogate :: "nat \<Rightarrow> bool" where
  "isLowSurrogate u = (0xDC00 \<le> u \<and> u \<le> 0xDFFF)"

fun codePoints :: "js_string \<Rightarrow> nat list" where
  "codePoints [] = []"
| "codePoints [u] = [if isHighSurrogate (unat u) \<or> isLowSurrogate (unat u) then 0xFFFD else unat u]"
| "codePoints (u # v # rest) =
     (if isHighSurrogate (unat u) \<and> isLowSurrogate (unat v)
      then (0x10000 + (unat u - 0xD800) * 0x400 + (unat v - 0xDC00)) # codePoints rest
      else (if isHighSurrogate (unat u) \<or> isLowSurrogate (unat u) then 0xFFFD else unat u)
             # codePoints (v # rest))"

definition utf8_sequence :: "nat \<Rightarrow> byte list" where
  "utf8_sequence cp =
     (if cp < 0x80 then [of_nat cp]
      else if cp < 0x800 then [of_nat (0xC0 + cp div 0x40), of_nat (0x80 + cp mod 0x40)]
      else if cp < 0x10000 then
        [of_nat (0xE0 + cp div 0x1000), of_nat (0x80 + cp div 0x40 mod 0x40),
         of_nat (0x80 + cp mod 0x40)]
      else
        [of_nat (0xF0 + cp div 0x40000), of_nat (0x80 + cp div 0x1000 mod 0x40),
         of_nat (0x80 + cp div 0x40 mod 0x40), of_nat (0x80 + cp mod 0x40)])"

definition utf8_bytes :: "js_string \<Rightarrow> byte list" where
  "utf8_bytes s = concat (map utf8_sequence (codePoints s))"

text \<open>
  The \<open>'utf8'\<close> output encoding of \<open>decipher.update\<close> and \<open>decipher.final\<close>, on the bytes
  of both together (the string decoder holds an incomplete sequence back from one call to
  the next). A lead byte fixes the length of a sequence and the range of its second byte
  (so that over-long forms, surrogates and values above U+10FFFF are not sequences); a
  byte that cannot start or continue a sequence ends it, U+FFFD is written for what was
  read of it, and decoding resumes at that byte. There is no byte order mark handling.
\<close>

definition between :: "nat \<Rightarrow> nat \<Rightarrow> byte \<Rightarrow> bool" where
  "between lo hi b = (lo \<le> unat b \<and> unat b \<le> hi)"

fun utf8_decode :: "byte list \<Rightarrow> nat list" where
  "utf8_decode [] = []"
| "utf8_decode (b # bs) =
     (let n = unat b in
      if n < 0x80 then n # utf8_decode bs
      else if 0xC2 \<le> n \<and> n \<le> 0xDF then
        (case bs of
           [] \<Rightarrow> [0xFFFD]
         | b1 # r1 \<Rightarrow>
             if between 0x80 0xBF b1
             then (n mod 0x20 * 0x40 + unat b1 mod 0x40) # utf8_decode r1
             else 0xFFFD # utf8_decode bs)
      else if 0xE0 \<le> n \<and> n \<le> 0xEF then
        (case bs of
           [] \<Rightarrow> [0xFFFD]
         | b1 # r1 \<Rightarrow>
             if between (if n = 0xE0 then 0xA0 else 0x80) (if n = 0xED then 0x9F else 0xBF) b1
             then (case r1 of
                     [] \<Rightarrow> [0xFFFD]
                   | b2 # r2 \<Rightarrow>
                       if between 0x80 0xBF b2
                       then (n mod 0x10 * 0x1000 + unat b1 mod 0x40 * 0x40 + unat b2 mod 0x40)
                              # utf8_decode r2
                       else 0xFFFD # utf8_decode r1)
             else 0xFFFD # utf8_decode bs)
      else if 0xF0 \<le> n \<and> n \<le> 0xF4 then
        (case bs of
           [] \<Rightarrow> [0xFFFD]
         | b1 # r1 \<Rightarrow>
             if between (if n = 0xF0 then 0x90 else 0x80) (if n = 0xF4 then 0x8F else 0xBF) b1
             then (case r1 of
                     [] \<Rightarrow> [0xFFFD]
                   | b2 # r2 \<Rightarrow>
                       if between 0x80 0xBF b2
                       then (case r2 of
                               [] \<Rightarrow> [0xFFFD]
                             | b3 # r3 \<Rightarrow>
                                 if between 0x80 0xBF b3
                                 then (n mod 0x08 * 0x40000 + unat b1 mod 0x40 * 0x1000
                                         + unat b2 mod 0x40 * 0x40 + unat b3 mod 0x40)
                                        # utf8_decode r3
                                 else 0xFFFD # utf8_decode r2)
                       else 0xFFFD # utf8_decode r1)
             else 0xFFFD # utf8_decode bs)
      else 0xFFFD # utf8_decode bs)"

text \<open>A code point as UTF-16 code units: itself, or a surrogate pair above U+FFFF.\<close>

definition utf16_units :: "nat \<Rightarrow> utf16 list" where
  "utf16_units cp =
     (if cp < 0x10000 then [of_nat cp]
      else [of_nat (0xD800 + (cp - 0x10000) div 0x400), of_nat (0xDC00 + (cp - 0x10000) mod 0x400)])"

definition utf8_text :: "byte list \<Rightarrow> js_string" where
  "utf8_text bs = concat (map utf16_units (utf8_decode bs))"

text \<open>
  \<open>String.prototype.isWellFormed\<close> and \<open>toWellFormed\<close>: no surrogate without its partner,
  and the string with U+FFFD in place of each such surrogate.
\<close>

fun isWellFormed :: "js_string \<Rightarrow> bool" where
  "isWellFormed [] = True"
| "isWellFormed [u] = (\<not> isHighSurrogate (unat u) \<and> \<not> isLowSurrogate (unat u))"
| "isWellFormed (u # v # rest) =
     (if isHighSurrogate (unat u) then isLowSurrogate (unat v) \<and> isWellFormed rest
      else \<not> isLowSurrogate (unat u) \<and> isWellFormed (v # rest))"

fun toWellFormed :: "js_string \<Rightarrow> js_string" where
  "toWellFormed [] = []"
| "toWellFormed [u] = [if isHighSurrogate (unat u) \<or> isLowSurrogate (unat u) then 0xFFFD else u]"
| "toWellFormed (u # v # rest) =
     (if isHighSurrogate (unat u) \<and> isLowSurrogate (unat v)
      then u # v # toWellFormed rest
      else (if isHighSurrogate (unat u) \<or> isLowSurrogate (unat u) then 0xFFFD else u)
             # toWellFormed (v # rest))"

text \<open>\<open>buffer.toString('hex')\<close>: two lower-case digits per byte.\<close>

definition hexDigit :: "nat \<Rightarrow> char" where
  "hexDigit n = (''0123456789abcdef'' ! n)"

definition toHex :: "byte list \<Rightarrow> string" where
  "toHex bs = concat (map (\<lambda>b. [hexDigit (unat b div 16), hexDigit (unat b mod 16)]) bs)"

text \<open>
  \<open>Buffer.from(s, 'hex')\<close>: pairs of hex digits, either case, up to the first pair that
  is not one; a last odd character is dropped.
\<close>

definition hexValue :: "char \<Rightarrow> nat option" where
  "hexValue c =
     (let n = of_char c in
      if 48 \<le> n \<and> n \<le> 57 then Some (n - 48)
      else if 97 \<le> n \<and> n \<le> 102 then Some (n - 87)
      else if 65 \<le> n \<and> n \<le> 70 then Some (n - 55)
      else None)"

fun fromHex :: "string \<Rightarrow> byte list" where
  "fromHex (a # b # rest) =
     (case (hexValue a, hexValue b) of
        (Some x, Some y) \<Rightarrow> of_nat (x * 16 + y) # fromHex rest
      | other \<Rightarrow> [])"
| "fromHex short = []"

text \<open>\<open>s.split(':')\<close>.\<close>

fun split_colon :: "string \<Rightarrow> string list" where
  "split_colon [] = [[]]"
| "split_colon (c # cs) =
     (if c = CHR '':'' then [] # split_colon cs
      else (case split_colon cs of
              [] \<Rightarrow> [[c]]
            | part # parts \<Rightarrow> (c # part) # parts))"

text \<open>
  \<open>encrypt\<close>, with the value \<open>iv\<close> of \<open>randomBytes(16)\<close> as an argument: the hex forms
  of the initialisation vector, the tag and the ciphertext, joined by colons.
\<close>

definition encrypt ::
  "cipher \<Rightarrow> byte list option \<Rightarrow> byte list \<Rightarrow> js_string \<Rightarrow> js_error + string" where
  "encrypt c encryptionKey iv plaintext =
     (case encryptionKey of
        None \<Rightarrow> Inl (Error ''Encryption service not initialized'')
      | Some key \<Rightarrow>
          (case gcm_encrypt c key iv (utf8_bytes plaintext) of
             (encrypted, authTag) \<Rightarrow>
               Inr (toHex iv @ '':'' @ toHex authTag @ '':'' @ toHex encrypted)))"

text \<open>
  \<open>decrypt\<close>, in the order of the source: the first three colon-separated parts;
  \<open>Buffer.from\<close> of the first two (it throws on \<open>undefined\<close>, the value of a missing
  second part); the decipher and its tag; then \<open>decipher.update\<close> of the third part, which
  throws on \<open>undefined\<close> and on hex input of odd length, and \<open>decipher.final\<close>. The
  messages of Node's own errors are abbreviated.
\<close>

definition decrypt :: "cipher \<Rightarrow> byte list option \<Rightarrow> string \<Rightarrow> js_error + js_string" where
  "decrypt c encryptionKey encryptedData =
     (case encryptionKey of
        None \<Rightarrow> Inl (Error ''Encryption service not initialized'')
      | Some key \<Rightarrow>
          (case split_colon encryptedData of
             ivHex # authTagHex # parts \<Rightarrow>
               (let iv = fromHex ivHex; authTag = fromHex authTagHex
                in case gcm_setup c key iv authTag of
                     Some err \<Rightarrow> Inl err
                   | None \<Rightarrow>
                       (case parts of
                          [] \<Rightarrow> Inl (Error ''The data argument must be of type string'')
                        | encryptedText # others \<Rightarrow>
                            if odd (length encryptedText)
                            then Inl (Error ''The argument encoding is invalid for data of odd length'')
                            else (case gcm_decrypt c key iv authTag (fromHex encryptedText) of
                                    Inl err \<Rightarrow> Inl err
                                  | Inr decrypted \<Rightarrow> Inr (utf8_text decrypted))))
           | short \<Rightarrow> Inl (Error ''The first argument must be of type string'')))"

section \<open>Properties of the post scheduler\<close>

lemma createPost_postQueue: "postQueue (snd (createPost e post c)) = postQueue c"
  by (simp add: createPost_def emit_def Let_def split: sum.split)

lemma processNextPost_unshifts:
  assumes "postQueue c = post # rest"
    and "createPost_throws e post (c\<lparr>postQueue := rest\<rparr>)"
  shows "postQueue (processNextPost e c) = post # rest"
proof (cases "isPosting c")
  case False
  then show ?thesis using assms(1) by (simp add: processNextPost_def)
next
  case True
  obtain r c' where r: "createPost e post (c\<lparr>postQueue := rest\<rparr>) = (r, c')"
    by (cases "createPost e post (c\<lparr>postQueue := rest\<rparr>)")
  from assms(2) r obtain err where e: "r = Inl err"
    by (cases r) (simp_all add: createPost_throws_def)
  have "postQueue c' = rest"
    using createPost_postQueue [of e post "c\<lparr>postQueue := rest\<rparr>"] r by simp
  then show ?thesis
    using True assms(1) r e by (simp add: processNextPost_def)
qed

text \<open>
  Claim C8. Whenever the outbox is drained (\<open>processNextPost\<close>) in a state whose head
  entry's post creation throws, the queue afterwards holds exactly the entries it held
  before, in the same order, with the failed entry at the head again.
\<close>

theorem processNextPost_requeues_at_head:
  assumes "postQueue c = post # rest"
    and "createPost_throws e post (c\<lparr>postQueue := rest\<rparr>)"
  shows "postQueue (processNextPost e c) = postQueue c
    \<and> hd (postQueue (processNextPost e c)) = post"
  using processNextPost_unshifts [OF assms] assms(1) by simp

text \<open>
  The whole timer callback first queues the newly generated post at the tail; when the
  creation of the head then throws, the entries queued before the firing are still at
  the front, in their order.
\<close>

lemma postIntervalCallback_requeues:
  assumes "postQueue c = post # rest"
    and "\<And>d. createPost_throws e post d"
  shows "postQueue (snd (postIntervalCallback e cfg gen r c)) =
     postQueue c @
     (case gen of
        None \<Rightarrow> []
      | Some cleanedPost \<Rightarrow>
          [\<lparr>status = cleanedPost, in_reply_to_id = None, quote_id = None, media_ids = None,
            sensitive = None, spoiler_text = None, visibility = Some ''public''\<rparr>])"
proof -
  let ?c1 = "generateAndQueuePost gen c"
  let ?new = "case gen of
        None \<Rightarrow> []
      | Some cleanedPost \<Rightarrow>
          [\<lparr>status = cleanedPost, in_reply_to_id = None, quote_id = None, media_ids = None,
            sensitive = None, spoiler_text = None, visibility = Some ''public''\<rparr>]"
  have q: "postQueue ?c1 = post # (rest @ ?new)"
    using assms(1) by (simp add: generateAndQueuePost_def queuePost_def split: option.split)
  have "postQueue (processNextPost e ?c1) = post # (rest @ ?new)"
    using processNextPost_unshifts [OF q assms(2)] .
  then show ?thesis
    using assms(1) by (simp add: postIntervalCallback_def Let_def)
qed

definition failing_env :: env where
  "failing_env =
     \<lparr>request = (\<lambda>call. Inl (Error ''Request failed: 500'')),
      generateContent = (\<lambda>tag post. None),
      generateTweetActions_post = (\<lambda>post. None),
      generateTweetActions_notification = (\<lambda>notification. None),
      isBlank = (\<lambda>text. text = []),
      processContent = (\<lambda>text. text),
      getUserTimeline = (\<lambda>username. [])\<rparr>"

definition outbox_entry :: "string \<Rightarrow> TruthSocialPostOptions" where
  "outbox_entry text =
     \<lparr>status = text, in_reply_to_id = None, quote_id = None, media_ids = None,
      sensitive = None, spoiler_text = None, visibility = Some ''public''\<rparr>"

definition idle_client :: "TruthSocialPostOptions list \<Rightarrow> PostClient" where
  "idle_client q = \<lparr>memory = {}, trace = [], isPosting = True, postQueue = q, postInterval = None\<rparr>"

theorem processNextPost_requeues_at_head_witness:
  "postQueue (idle_client [outbox_entry ''a'', outbox_entry ''b''])
     = outbox_entry ''a'' # [outbox_entry ''b'']
   \<and> createPost_throws failing_env (outbox_entry ''a'')
        ((idle_client [outbox_entry ''a'', outbox_entry ''b''])\<lparr>postQueue := [outbox_entry ''b'']\<rparr>)
   \<and> postQueue (processNextPost failing_env (idle_client [outbox_entry ''a'', outbox_entry ''b'']))
     = [outbox_entry ''a'', outbox_entry ''b'']
   \<and> hd (postQueue (processNextPost failing_env
          (idle_client [outbox_entry ''a'', outbox_entry ''b'']))) = outbox_entry ''a''"
proof -
  have q: "postQueue (idle_client [outbox_entry ''a'', outbox_entry ''b''])
      = outbox_entry ''a'' # [outbox_entry ''b'']"
    by (simp add: idle_client_def)
  have t: "createPost_throws failing_env (outbox_entry ''a'')
        ((idle_client [outbox_entry ''a'', outbox_entry ''b''])\<lparr>postQueue := [outbox_entry ''b'']\<rparr>)"
    by (simp add: createPost_throws_def createPost_def failing_env_def Let_def)
  from processNextPost_requeues_at_head [OF q t] q t show ?thesis by simp
qed

lemma postIntervalCallback_postInterval:
  "postInterval (snd (postIntervalCallback e cfg gen r c)) = postInterval c"
proof -
  have g: "postInterval (generateAndQueuePost gen c) = postInterval c"
    by (simp add: generateAndQueuePost_def queuePost_def split: option.split)
  have cp: "\<And>p d. postInterval (snd (createPost e p d)) = postInterval d"
    by (simp add: createPost_def emit_def Let_def split: sum.split)
  have p: "\<And>d. postInterval (processNextPost e d) = postInterval d"
  proof -
    fix d
    show "postInterval (processNextPost e d) = postInterval d"
    proof (cases "postQueue d")
      case Nil
      then show ?thesis by (simp add: processNextPost_def)
    next
      case (Cons post rest)
      obtain res d' where r: "createPost e post (d\<lparr>postQueue := rest\<rparr>) = (res, d')"
        by (cases "createPost e post (d\<lparr>postQueue := rest\<rparr>)")
      have "postInterval d' = postInterval d"
        using cp [of post "d\<lparr>postQueue := rest\<rparr>"] r by simp
      then show ?thesis
        using Cons r by (cases res) (simp_all add: processNextPost_def)
    qed
  qed
  show ?thesis by (simp add: postIntervalCallback_def Let_def p g)
qed

text \<open>
  The timer armed by \<open>startPostingLoop\<close> keeps the period of the first draw: every delay
  between firings equals it, whatever is drawn at the firings.
\<close>

lemma firingDelays_fixed:
  "postInterval c = Some period \<Longrightarrow>
   firingDelays e cfg draws c = replicate (length draws) period"
proof (induction draws arbitrary: c)
  case Nil
  then show ?case by simp
next
  case (Cons d draws)
  obtain gen r where d: "d = (gen, r)" by (cases d)
  have "postInterval (snd (postIntervalCallback e cfg gen r c)) = Some period"
    using Cons.prems by (simp add: postIntervalCallback_postInterval)
  then show ?case using Cons.IH Cons.prems d by simp
qed

lemma getRandomInterval_bounds:
  assumes "0 \<le> r" "r < 1" "lo \<le> hi"
  shows "lo \<le> getRandomInterval lo hi r \<and> getRandomInterval lo hi r \<le> hi"
proof -
  let ?x = "r * of_int (hi - lo + 1) + of_int lo"
  have n: "0 \<le> r * of_int (hi - lo + 1)"
    using assms by simp
  have "r * of_int (hi - lo + 1) < 1 * of_int (hi - lo + 1)"
    using assms by (intro mult_strict_right_mono) simp_all
  then have u: "?x < of_int (hi + 1)"
    by simp
  have l: "of_int lo \<le> ?x"
    using n by simp
  have "lo \<le> \<lfloor>?x\<rfloor>"
    using l le_floor_iff by blast
  moreover have "\<lfloor>?x\<rfloor> < hi + 1"
    using u floor_less_iff by blast
  ultimately show ?thesis unfolding getRandomInterval_def by linarith
qed

definition default_config :: PostConfig where
  "default_config = \<lparr>POST_IMMEDIATELY = False, POST_INTERVAL_MIN = 90, POST_INTERVAL_MAX = 180\<rparr>"

definition stopped_client :: PostClient where
  "stopped_client = \<lparr>memory = {}, trace = [], isPosting = False, postQueue = [], postInterval = None\<rparr>"

text \<open>
  Claim C9, on the code. With the default bounds (90 and 180 minutes) and the draws
  \<open>0\<close> at start-up and \<open>1/2\<close>, \<open>3/4\<close> and \<open>1/4\<close> at the first three firings, the
  three delays between posts are all 5400000 ms (the first draw), although the callback
  draws and announces 8100000 ms as the next interval at its first firing.
\<close>

theorem posting_timer_period_is_fixed:
  "firingDelays failing_env default_config [(None, 1/2), (None, 3/4), (None, 1/4)]
     (startPostingLoop failing_env default_config None 0 stopped_client)
     = [5400000, 5400000, 5400000]
   \<and> fst (postIntervalCallback failing_env default_config None (1/2)
        (startPostingLoop failing_env default_config None 0 stopped_client)) = 8100000"
proof -
  have s: "postInterval (startPostingLoop failing_env default_config None 0 stopped_client)
            = Some 5400000"
    by (simp add: startPostingLoop_def stopped_client_def default_config_def minInterval_def
        maxInterval_def getRandomInterval_def Let_def)
  have "getRandomInterval 5400000 10800000 (1/2) = 8100000"
    by (simp add: getRandomInterval_def floor_eq_iff)
  then have a: "fst (postIntervalCallback failing_env default_config None (1/2)
        (startPostingLoop failing_env default_config None 0 stopped_client)) = 8100000"
    by (simp add: postIntervalCallback_def default_config_def minInterval_def maxInterval_def Let_def)
  show ?thesis using firingDelays_fixed [OF s] a by simp
qed

section \<open>Properties of the session manager\<close>

fun isLoginOrWait :: "event \<Rightarrow> bool" where
  "isLoginOrWait LoginCall = True"
| "isLoginOrWait (Wait ms) = True"
| "isLoginOrWait e = False"

definition loginsAndWaits :: "event list \<Rightarrow> event list" where
  "loginsAndWaits t = filter isLoginOrWait t"

text \<open>The requests sent to the platform, in the order of sending.\<close>

fun requestsOf :: "event list \<Rightarrow> api_call list" where
  "requestsOf [] = []"
| "requestsOf (Request call # t) = call # requestsOf t"
| "requestsOf (other # t) = requestsOf t"

lemma requestsOf_append: "requestsOf (a @ b) = requestsOf a @ requestsOf b"
  by (induction a rule: requestsOf.induct) simp_all

lemma requestsOf_login: "requestsOf (trace (snd (login tr cfg s))) = requestsOf (trace s)"
  by (simp add: login_def Let_def case_prod_beta validateSession_def passwordGrant_def emit_def
      requestsOf_append split: bool.split grant_outcome.split option.split)

lemma loginsAndWaits_validateSession:
  "loginsAndWaits (trace (snd (validateSession tr s))) = loginsAndWaits (trace s)"
  by (simp add: validateSession_def emit_def loginsAndWaits_def)

lemma loginsAndWaits_passwordGrant:
  "loginsAndWaits (trace (snd (passwordGrant tr s))) = loginsAndWaits (trace s)"
  by (simp add: passwordGrant_def emit_def loginsAndWaits_def Let_def
      split: grant_outcome.split option.split)

lemma loginsAndWaits_login:
  "loginsAndWaits (trace (snd (login tr cfg s))) = loginsAndWaits (trace s) @ [LoginCall]"
proof -
  have v: "\<And>a. loginsAndWaits (trace (snd (validateSession tr a))) = loginsAndWaits (trace a)"
    by (rule loginsAndWaits_validateSession)
  have g: "\<And>a. loginsAndWaits (trace (snd (passwordGrant tr a))) = loginsAndWaits (trace a)"
    by (rule loginsAndWaits_passwordGrant)
  have e: "loginsAndWaits (trace (emit LoginCall s)) = loginsAndWaits (trace s) @ [LoginCall]"
    by (simp add: emit_def loginsAndWaits_def)
  show ?thesis
    by (simp add: login_def Let_def case_prod_beta v g e split: bool.split)
qed

lemma init_loop_fail_step:
  assumes "0 < retries" and "login tr cfg s = (Inl e, s1)"
  shows "init_loop tr cfg retries s =
     (if retries - 1 = 0
      then (Inl (Error ''Truth Social login failed after maximum retries''), s1)
      else init_loop tr cfg (retries - 1)
             (emit (Wait (2 ^ nat (TRUTHSOCIAL_RETRY_LIMIT cfg - (retries - 1)) * 1000)) s1))"
  using assms by (subst init_loop.simps) simp

text \<open>
  Claim C7. With a retry limit of 3, on a client that is not yet registered and has no
  cached token that the probe accepts, if every login attempt throws, then \<open>init\<close> makes
  exactly three login attempts, sleeps 2000 ms after the first and 4000 ms after the
  second, and after the third throws the exhaustion error with no further sleep.
\<close>

theorem init_backoff_schedule:
  assumes limit: "TRUTHSOCIAL_RETRY_LIMIT cfg = 3"
    and fresh: "TRUTHSOCIAL_USERNAME cfg \<notin> truthSocialClients s"
    and nocache: "\<not> (truthy (cachedToken s) \<and> probe tr (probes s))"
    and fails: "\<And>s'. isl (fst (login tr cfg s'))"
  shows "fst (init tr cfg s) = Inl (Error ''Truth Social login failed after maximum retries'')
    \<and> loginsAndWaits (trace (snd (init tr cfg s)))
        = loginsAndWaits (trace s) @ [LoginCall, Wait 2000, LoginCall, Wait 4000, LoginCall]"
proof -
  define s0 where "s0 = (if truthy (cachedToken s)
      then snd (validateSession tr (s\<lparr>authToken := cachedToken s\<rparr>)) else s)"
  have i: "init tr cfg s = init_loop tr cfg 3 s0"
    using limit fresh nocache
    by (auto simp: init_def s0_def Let_def validateSession_def split: if_splits)
  have t0: "loginsAndWaits (trace s0) = loginsAndWaits (trace s)"
    by (simp add: s0_def loginsAndWaits_validateSession)
  obtain e1 s1 where l1: "login tr cfg s0 = (Inl e1, s1)"
    using fails [of s0] by (cases "login tr cfg s0") (auto simp: isl_def)
  define w1 where "w1 = emit (Wait 2000) s1"
  obtain e2 s2 where l2: "login tr cfg w1 = (Inl e2, s2)"
    using fails [of w1] by (cases "login tr cfg w1") (auto simp: isl_def)
  define w2 where "w2 = emit (Wait 4000) s2"
  obtain e3 s3 where l3: "login tr cfg w2 = (Inl e3, s3)"
    using fails [of w2] by (cases "login tr cfg w2") (auto simp: isl_def)
  have r1: "init_loop tr cfg 3 s0 = init_loop tr cfg 2 w1"
    using init_loop_fail_step [of 3 tr cfg s0 e1 s1] l1 limit by (simp add: w1_def)
  have r2: "init_loop tr cfg 2 w1 = init_loop tr cfg 1 w2"
    using init_loop_fail_step [of 2 tr cfg w1 e2 s2] l2 limit by (simp add: w2_def)
  have r3: "init_loop tr cfg 1 w2
      = (Inl (Error ''Truth Social login failed after maximum retries''), s3)"
    using init_loop_fail_step [of 1 tr cfg w2 e3 s3] l3 by simp
  have res: "init tr cfg s = (Inl (Error ''Truth Social login failed after maximum retries''), s3)"
    by (simp add: i r1 r2 r3)
  have t1: "loginsAndWaits (trace s1) = loginsAndWaits (trace s) @ [LoginCall]"
    using loginsAndWaits_login [of tr cfg s0] l1 t0 by simp
  have tw1: "loginsAndWaits (trace w1) = loginsAndWaits (trace s) @ [LoginCall, Wait 2000]"
    using t1 by (simp add: w1_def emit_def loginsAndWaits_def)
  have t2: "loginsAndWaits (trace s2) = loginsAndWaits (trace s) @ [LoginCall, Wait 2000, LoginCall]"
    using loginsAndWaits_login [of tr cfg w1] l2 tw1 by simp
  have tw2: "loginsAndWaits (trace w2)
      = loginsAndWaits (trace s) @ [LoginCall, Wait 2000, LoginCall, Wait 4000]"
    using t2 by (simp add: w2_def emit_def loginsAndWaits_def)
  have t3: "loginsAndWaits (trace s3)
      = loginsAndWaits (trace s) @ [LoginCall, Wait 2000, LoginCall, Wait 4000, LoginCall]"
    using loginsAndWaits_login [of tr cfg w2] l3 tw2 by simp
  show ?thesis using res t3 by simp
qed

definition dead_transport :: transport where
  "dead_transport = \<lparr>probe = (\<lambda>k. False), grant = (\<lambda>k. GrantRejected 401),
      response = (\<lambda>k. \<lparr>ok = False, http_status = 401, data = ''{}''\<rparr>), cookiesUsable = True\<rparr>"

definition password_config :: TruthSocialConfig where
  "password_config = \<lparr>TRUTHSOCIAL_USERNAME = ''agent'', TRUTHSOCIAL_RETRY_LIMIT = 3,
      TRUTHSOCIAL_COOKIES = None, TRUTHSOCIAL_AUTH_TOKEN = None\<rparr>"

definition fresh_session :: session where
  "fresh_session = \<lparr>memory = {}, trace = [], authToken = None, truthSocialClients = {},
      cachedToken = None, probes = 0, grants = 0, fetches = 0\<rparr>"

lemma dead_transport_login_fails: "isl (fst (login dead_transport cfg s'))"
  by (simp add: login_def Let_def case_prod_beta validateSession_def passwordGrant_def
      dead_transport_def split: bool.split)

theorem init_backoff_schedule_witness:
  "TRUTHSOCIAL_RETRY_LIMIT password_config = 3
   \<and> TRUTHSOCIAL_USERNAME password_config \<notin> truthSocialClients fresh_session
   \<and> \<not> (truthy (cachedToken fresh_session) \<and> probe dead_transport (probes fresh_session))
   \<and> (\<forall>s'. isl (fst (login dead_transport password_config s')))
   \<and> fst (init dead_transport password_config fresh_session)
     = Inl (Error ''Truth Social login failed after maximum retries'')
   \<and> trace (snd (init dead_transport password_config fresh_session))
     = [LoginCall, TokenRequest, Wait 2000, LoginCall, TokenRequest, Wait 4000, LoginCall, TokenRequest]"
proof -
  have a: "TRUTHSOCIAL_RETRY_LIMIT password_config = 3"
    by (simp add: password_config_def)
  have b: "TRUTHSOCIAL_USERNAME password_config \<notin> truthSocialClients fresh_session"
    by (simp add: fresh_session_def)
  have c: "\<not> (truthy (cachedToken fresh_session) \<and> probe dead_transport (probes fresh_session))"
    by (simp add: dead_transport_def)
  note w = init_backoff_schedule [OF a b c dead_transport_login_fails]
  have "trace (snd (init dead_transport password_config fresh_session))
     = [LoginCall, TokenRequest, Wait 2000, LoginCall, TokenRequest, Wait 4000, LoginCall, TokenRequest]"
    by (simp add: init_def fresh_session_def password_config_def truthy_def Let_def
        init_loop.simps [of _ _ 3] init_loop.simps [of _ _ 2] init_loop.simps [of _ _ 1] login_def passwordGrant_def dead_transport_def emit_def)
  with w a b c dead_transport_login_fails show ?thesis by simp
qed

lemma succeeds_Inr: "\<not> isl (fst x) \<Longrightarrow> \<exists>u s3. x = (Inr u, s3)"
  by (cases x; cases "fst x") auto

lemma fetches_login: "fetches (snd (login tr cfg s)) = fetches s"
  by (simp add: login_def Let_def case_prod_beta validateSession_def passwordGrant_def emit_def
      split: bool.split grant_outcome.split option.split)

lemma makeAuthenticatedRequest_ok:
  assumes "truthy (authToken s)" and "ok (response tr (fetches s))"
  shows "makeAuthenticatedRequest (Suc fuel) tr cfg call s
    = Some (Inr (data (response tr (fetches s))),
        emit (Request call) (s\<lparr>fetches := Suc (fetches s)\<rparr>))"
  using assms by (simp add: Let_def)

lemma makeAuthenticatedRequest_401:
  assumes "truthy (authToken s)" and "\<not> ok (response tr (fetches s))"
    and "http_status (response tr (fetches s)) = 401"
    and "login tr cfg (emit (Request call) (s\<lparr>fetches := Suc (fetches s)\<rparr>)) = (Inr u, s3)"
  shows "makeAuthenticatedRequest (Suc fuel) tr cfg call s
    = makeAuthenticatedRequest fuel tr cfg call s3"
  using assms by (simp add: Let_def)

text \<open>
  Claim C1, as the code has it. A 401 response makes the client run \<open>login\<close> and issue
  the same request again, and the retried request is treated like the first: when \<open>n\<close>
  consecutive fetches answer 401 and the next one is ok, and every login succeeds, the
  call returns the data of that last response after \<open>n\<close> logins and \<open>n + 1\<close> fetches,
  and what it has sent to the platform is that one request, \<open>n + 1\<close> times.
\<close>

theorem makeAuthenticatedRequest_retries_every_401:
  assumes "truthy (authToken s)"
    and "\<forall>i<n. \<not> ok (response tr (fetches s + i)) \<and> http_status (response tr (fetches s + i)) = 401"
    and "ok (response tr (fetches s + n))"
    and "\<And>s'. \<not> isl (fst (login tr cfg s'))"
  shows "\<exists>s'. makeAuthenticatedRequest (Suc n) tr cfg call s
            = Some (Inr (data (response tr (fetches s + n))), s')
          \<and> fetches s' = fetches s + n + 1
          \<and> loginsAndWaits (trace s') = loginsAndWaits (trace s) @ replicate n LoginCall
          \<and> requestsOf (trace s') = requestsOf (trace s) @ replicate (Suc n) call"
  using assms
proof (induction n arbitrary: s)
  case 0
  then show ?case
    by (simp add: makeAuthenticatedRequest_ok emit_def loginsAndWaits_def requestsOf_append
        del: makeAuthenticatedRequest.simps)
next
  case (Suc n)
  let ?s2 = "emit (Request call) (s\<lparr>fetches := Suc (fetches s)\<rparr>)"
  obtain u s3 where l: "login tr cfg ?s2 = (Inr u, s3)"
    using succeeds_Inr [OF Suc.prems(4) [of ?s2]] by blast
  have tok3: "truthy (authToken s3)"
    using l by (rule login_truthy)
  have f3: "fetches s3 = Suc (fetches s)"
    using fetches_login [of tr cfg ?s2] l by (simp add: emit_def)
  have t3: "loginsAndWaits (trace s3) = loginsAndWaits (trace s) @ [LoginCall]"
    using loginsAndWaits_login [of tr cfg ?s2] l by (simp add: emit_def loginsAndWaits_def)
  have q3: "requestsOf (trace s3) = requestsOf (trace s) @ [call]"
    using requestsOf_login [of tr cfg ?s2] l by (simp add: emit_def requestsOf_append)
  have first: "\<not> ok (response tr (fetches s)) \<and> http_status (response tr (fetches s)) = 401"
    using Suc.prems(2) by (metis add.right_neutral zero_less_Suc)
  have step: "makeAuthenticatedRequest (Suc (Suc n)) tr cfg call s
      = makeAuthenticatedRequest (Suc n) tr cfg call s3"
    using makeAuthenticatedRequest_401 [OF Suc.prems(1) _ _ l] first by blast
  have rest: "\<forall>i<n. \<not> ok (response tr (fetches s3 + i)) \<and> http_status (response tr (fetches s3 + i)) = 401"
  proof (intro allI impI)
    fix i assume "i < n"
    then have "Suc i < Suc n" by simp
    with Suc.prems(2) have "\<not> ok (response tr (fetches s + Suc i))
        \<and> http_status (response tr (fetches s + Suc i)) = 401" by blast
    then show "\<not> ok (response tr (fetches s3 + i)) \<and> http_status (response tr (fetches s3 + i)) = 401"
      by (simp add: f3)
  qed
  have last: "ok (response tr (fetches s3 + n))"
    using Suc.prems(3) by (simp add: f3)
  from Suc.IH [OF tok3 rest last Suc.prems(4)]
  obtain s' where r: "makeAuthenticatedRequest (Suc n) tr cfg call s3
            = Some (Inr (data (response tr (fetches s3 + n))), s')"
    and f: "fetches s' = fetches s3 + n + 1"
    and t: "loginsAndWaits (trace s') = loginsAndWaits (trace s3) @ replicate n LoginCall"
    and q: "requestsOf (trace s') = requestsOf (trace s3) @ replicate (Suc n) call"
    by blast
  have "makeAuthenticatedRequest (Suc (Suc n)) tr cfg call s
            = Some (Inr (data (response tr (fetches s + Suc n))), s')"
    using step r by (simp add: f3)
  moreover have "fetches s' = fetches s + Suc n + 1"
    using f by (simp add: f3)
  moreover have "loginsAndWaits (trace s') = loginsAndWaits (trace s) @ replicate (Suc n) LoginCall"
    using t t3 by (simp add: replicate_append_same)
  moreover have "requestsOf (trace s') = requestsOf (trace s) @ replicate (Suc (Suc n)) call"
    using q q3 by simp
  ultimately show ?case by blast
qed

text \<open>
  When every fetch answers 401 and every login succeeds, the call never returns: no
  amount of fuel is enough, and no error reaches the caller.
\<close>

lemma makeAuthenticatedRequest_401_forever:
  assumes "truthy (authToken s)"
    and "\<And>k. \<not> ok (response tr k) \<and> http_status (response tr k) = 401"
    and "\<And>s'. \<not> isl (fst (login tr cfg s'))"
  shows "makeAuthenticatedRequest fuel tr cfg call s = None"
  using assms(1)
proof (induction fuel arbitrary: s)
  case 0
  then show ?case by simp
next
  case (Suc fuel)
  let ?s2 = "emit (Request call) (s\<lparr>fetches := Suc (fetches s)\<rparr>)"
  obtain u s3 where l: "login tr cfg ?s2 = (Inr u, s3)"
    using succeeds_Inr [OF assms(3) [of ?s2]] by blast
  have "makeAuthenticatedRequest (Suc fuel) tr cfg call s
      = makeAuthenticatedRequest fuel tr cfg call s3"
    using makeAuthenticatedRequest_401 [OF Suc.prems _ _ l] assms(2) by blast
  then show ?case using Suc.IH [OF login_truthy [OF l]] by simp
qed

definition expired_twice :: transport where
  "expired_twice = \<lparr>probe = (\<lambda>k. False), grant = (\<lambda>k. GrantToken (Some ''fresh'')),
      response = (\<lambda>k. if k < 2 then \<lparr>ok = False, http_status = 401, data = ''{}''\<rparr>
                       else \<lparr>ok = True, http_status = 200, data = ''done''\<rparr>),
      cookiesUsable = True\<rparr>"

definition stale_session :: session where
  "stale_session = \<lparr>memory = {}, trace = [], authToken = Some ''stale'',
      truthSocialClients = {''agent''}, cachedToken = None, probes = 0, grants = 0, fetches = 0\<rparr>"

text \<open>
  The claim C1 as stated fails: with a token that the platform rejects twice, the second
  401 (the answer to the retried request) is followed by a second login and a third
  fetch, and the caller gets the data, not an error.
\<close>

theorem second_401_is_retried_again:
  "map_option fst (makeAuthenticatedRequest 3 expired_twice password_config (Favourite ''1'') stale_session)
     = Some (Inr ''done'')
   \<and> map_option (trace \<circ> snd)
        (makeAuthenticatedRequest 3 expired_twice password_config (Favourite ''1'') stale_session)
     = Some [Request (Favourite ''1''), LoginCall, TokenRequest,
             Request (Favourite ''1''), LoginCall, ValidateSession, TokenRequest,
             Request (Favourite ''1'')]"
  by (simp add: numeral_3_eq_3 expired_twice_def stale_session_def password_config_def truthy_def
      Let_def login_def passwordGrant_def validateSession_def emit_def)

lemma expired_twice_login: "\<not> isl (fst (login expired_twice password_config s'))"
  by (simp add: login_def Let_def case_prod_beta validateSession_def passwordGrant_def
      expired_twice_def password_config_def truthy_def split: bool.split)

theorem makeAuthenticatedRequest_retries_every_401_witness:
  "truthy (authToken stale_session)
   \<and> http_status (response expired_twice 0) = 401
   \<and> http_status (response expired_twice 1) = 401
   \<and> ok (response expired_twice 2)
   \<and> (\<forall>s'. \<not> isl (fst (login expired_twice password_config s')))
   \<and> (\<exists>s'. makeAuthenticatedRequest 3 expired_twice password_config (Follow ''7'') stale_session
            = Some (Inr ''done'', s')
        \<and> fetches s' = 3
        \<and> loginsAndWaits (trace s') = [LoginCall, LoginCall]
        \<and> requestsOf (trace s') = [Follow ''7'', Follow ''7'', Follow ''7''])"
proof -
  have a: "truthy (authToken stale_session)"
    by (simp add: stale_session_def truthy_def)
  have b: "\<forall>i<2. \<not> ok (response expired_twice (fetches stale_session + i))
      \<and> http_status (response expired_twice (fetches stale_session + i)) = 401"
    by (simp add: expired_twice_def stale_session_def)
  have c: "ok (response expired_twice (fetches stale_session + 2))"
    by (simp add: expired_twice_def stale_session_def)
  have d: "http_status (response expired_twice 0) = 401
      \<and> http_status (response expired_twice 1) = 401 \<and> ok (response expired_twice 2)"
    by (simp add: expired_twice_def)
  from makeAuthenticatedRequest_retries_every_401 [OF a b c expired_twice_login, of "Follow ''7''"]
  have "\<exists>s'. makeAuthenticatedRequest 3 expired_twice password_config (Follow ''7'') stale_session
            = Some (Inr ''done'', s')
        \<and> fetches s' = 3
        \<and> loginsAndWaits (trace s') = [LoginCall, LoginCall]
        \<and> requestsOf (trace s') = [Follow ''7'', Follow ''7'', Follow ''7'']"
    by (simp add: numeral_3_eq_3 numeral_2_eq_2 expired_twice_def stale_session_def
        loginsAndWaits_def del: makeAuthenticatedRequest.simps)
  with a d expired_twice_login show ?thesis by blast
qed

subsection \<open>The errors of the request layer\<close>

lemma passwordGrant_plain_error:
  "passwordGrant tr s = (Inl err, s') \<Longrightarrow> \<exists>msg. err = Error msg"
  by (auto simp: passwordGrant_def Let_def split: grant_outcome.splits option.splits if_splits)

lemma login_plain_error:
  assumes "login tr cfg s = (Inl err, s')"
  shows "\<exists>msg. err = Error msg"
proof -
  have "\<exists>a. passwordGrant tr a = (Inl err, s')"
    using assms
    by (auto simp: login_def Let_def case_prod_beta split: if_splits bool.splits prod.splits)
  then show ?thesis using passwordGrant_plain_error by blast
qed

lemma init_loop_plain_error:
  "init_loop tr cfg retries s = (Inl err, s') \<Longrightarrow> \<exists>msg. err = Error msg"
proof (induction tr cfg retries s rule: init_loop.induct)
  case (1 tr cfg retries s)
  show ?case
  proof (cases "retries > 0")
    case False
    then show ?thesis using "1.prems" by (simp add: init_loop.simps)
  next
    case True
    obtain r s1 where l: "login tr cfg s = (r, s1)" by (metis surj_pair)
    show ?thesis
    proof (cases r)
      case (Inr u)
      show ?thesis
      proof (cases "truthy (authToken s1)")
        case t: True
        then show ?thesis
          using "1.prems" True l Inr by (simp add: init_loop.simps [of tr cfg retries s])
      next
        case f: False
        then show ?thesis
          using login_truthy [of tr cfg s u s1] l Inr by simp
      qed
    next
      case (Inl e)
      show ?thesis
      proof (cases "retries - 1 = 0")
        case z: True
        have "init_loop tr cfg retries s
            = (Inl (Error ''Truth Social login failed after maximum retries''), s1)"
          using True l Inl z by (subst init_loop.simps) simp
        then show ?thesis
          using "1.prems" by auto
      next
        case nz: False
        then have "init_loop tr cfg (retries - 1)
            (emit (Wait (2 ^ nat (TRUTHSOCIAL_RETRY_LIMIT cfg - (retries - 1)) * 1000)) s1)
            = (Inl err, s')"
          using "1.prems" True l Inl by (simp add: init_loop.simps [of tr cfg retries s])
        then show ?thesis
          using "1.IH"(1) [OF True l [symmetric] Inl nz] by blast
      qed
    qed
  qed
qed

lemma init_plain_error:
  "init tr cfg s = (Inl err, s') \<Longrightarrow> \<exists>msg. err = Error msg"
  by (auto simp: init_def Let_def case_prod_beta split: if_splits dest: init_loop_plain_error)

lemma isGroupError_plain: "\<not> isGroupError (Error msg)"
  by (simp add: isGroupError_def Error_def)

text \<open>
  Every error that \<open>makeAuthenticatedRequest\<close> throws is made by \<open>new Error\<close>, so it has
  no \<open>response\<close> property and \<open>isGroupError\<close> is false of it, whatever the status and
  the body of the failed response were.
\<close>

lemma makeAuthenticatedRequest_never_group_error:
  "makeAuthenticatedRequest fuel tr cfg call s = Some (Inl err, s') \<Longrightarrow> \<not> isGroupError err"
proof (induction fuel arbitrary: s)
  case 0
  then show ?case by simp
next
  case (Suc fuel)
  have plain: "(\<exists>msg. err = Error msg) \<or>
      (\<exists>s3. makeAuthenticatedRequest fuel tr cfg call s3 = Some (Inl err, s'))"
    using Suc.prems
    by (auto simp: Let_def split: if_splits prod.splits sum.splits option.splits
        dest: init_plain_error login_plain_error)
  then show ?case
    using Suc.IH isGroupError_plain by blast
qed

section \<open>Properties of the action executor\<close>

definition newEvents :: "'a world_scheme \<Rightarrow> 'b world_scheme \<Rightarrow> event list" where
  "newEvents w w' = drop (length (trace w)) (trace w')"

fun actionRank :: "api_call \<Rightarrow> nat" where
  "actionRank (Follow uid) = 0"
| "actionRank (Favourite pid) = 1"
| "actionRank (Reblog pid) = 2"
| "actionRank (CreateStatus params) = (if quote_id params \<noteq> None then 3 else 4)"

definition extends :: "'a world_scheme \<Rightarrow> 'b world_scheme \<Rightarrow> event list \<Rightarrow> bool" where
  "extends w w' new = (trace w' = trace w @ new)"

lemma extends_refl: "extends w w []"
  by (simp add: extends_def)

lemma extends_trans: "extends w w1 a \<Longrightarrow> extends w1 w2 b \<Longrightarrow> extends w w2 (a @ b)"
  by (simp add: extends_def)

lemma extends_newEvents: "extends w w' new \<Longrightarrow> newEvents w w' = new"
  by (simp add: extends_def newEvents_def)

lemma isGroupError_empty_object: "\<not> isGroupError empty_object"
  by (simp add: isGroupError_def empty_object_def)

lemma extends_storeInMemory:
  "extends m (storeInMemory e ident body m)
     (if isBlank e body \<or> isBlank e (processContent e body) then [] else [CreateMemory ident])"
  by (simp add: storeInMemory_def extends_def emit_def)

lemma extends_handleFavourite:
  "extends m (snd (handleFavourite e post m)) [Request (Favourite (post_id post))]"
  by (simp add: handleFavourite_def extends_def emit_def split: sum.split)

lemma extends_handleReblog:
  "extends m (snd (handleReblog e post m)) [Request (Reblog (post_id post))]"
  by (simp add: handleReblog_def extends_def emit_def split: sum.split)

definition contentEvents ::
  "env \<Rightarrow> TruthSocialPost \<Rightarrow> string \<Rightarrow> (string \<Rightarrow> string \<Rightarrow> TruthSocialPostOptions) \<Rightarrow> event list" where
  "contentEvents e post tag params =
     Generate tag (post_id post) #
     (case generateContent e tag post of
        None \<Rightarrow> []
      | Some text \<Rightarrow>
          if text = [] then [] else [Request (CreateStatus (params text (post_id post)))])"

lemma extends_handleContent:
  "extends m (snd (handleContent e post tag params m)) (contentEvents e post tag params)"
  by (simp add: handleContent_def contentEvents_def extends_def emit_def Let_def
      split: option.split sum.split)

definition reaches :: "'a world_scheme \<Rightarrow> 'b world_scheme \<Rightarrow> api_call list \<Rightarrow> bool" where
  "reaches w w' calls = (\<exists>new. extends w w' new \<and> requestsOf new = calls)"

lemma reaches_refl: "reaches w w []"
  by (auto simp: reaches_def extends_def)

lemma reaches_trans: "reaches w w1 a \<Longrightarrow> reaches w1 w2 b \<Longrightarrow> reaches w w2 (a @ b)"
  by (auto simp: reaches_def extends_def requestsOf_append)

lemma reaches_trans_nil: "reaches w w1 a \<Longrightarrow> reaches w1 w2 [] \<Longrightarrow> reaches w w2 a"
  using reaches_trans [of w w1 a w2 "[]"] by simp

lemma reaches_newEvents: "reaches w w' calls \<Longrightarrow> requestsOf (newEvents w w') = calls"
  by (auto simp: reaches_def dest: extends_newEvents)

lemma reaches_storeInMemory: "reaches m (storeInMemory e ident body m) []"
  unfolding reaches_def using extends_storeInMemory [of m e ident body]
  by (intro exI conjI, assumption) simp

lemma reaches_handleFavourite:
  "reaches m (snd (handleFavourite e post m)) [Favourite (post_id post)]"
  unfolding reaches_def using extends_handleFavourite [of m e post]
  by (intro exI conjI, assumption) simp

lemma reaches_handleReblog:
  "reaches m (snd (handleReblog e post m)) [Reblog (post_id post)]"
  unfolding reaches_def using extends_handleReblog [of m e post]
  by (intro exI conjI, assumption) simp

definition contentCalls ::
  "env \<Rightarrow> TruthSocialPost \<Rightarrow> string \<Rightarrow> (string \<Rightarrow> string \<Rightarrow> TruthSocialPostOptions) \<Rightarrow> api_call list" where
  "contentCalls e post tag params =
     (case generateContent e tag post of
        None \<Rightarrow> []
      | Some text \<Rightarrow> if text = [] then [] else [CreateStatus (params text (post_id post))])"

lemma reaches_handleContent:
  "reaches m (snd (handleContent e post tag params m)) (contentCalls e post tag params)"
  unfolding reaches_def using extends_handleContent [of m e post tag params]
  by (intro exI conjI, assumption)
    (simp add: contentEvents_def contentCalls_def split: option.split)

definition postActionCalls ::
  "env \<Rightarrow> TruthSocialPost \<Rightarrow> TruthSocialActionResponse \<Rightarrow> api_call list" where
  "postActionCalls e post a =
     (if favourite a then [Favourite (post_id post)] else []) @
     (if reblog a then [Reblog (post_id post)] else []) @
     (if quote a then contentCalls e post ''QUOTE'' quoteParams else []) @
     (if reply a then contentCalls e post ''REPLY'' replyParams else [])"

lemma favouriteBlock_reaches:
  assumes "favouriteBlock e post a m0 = (executed, isGroupPost, m1)"
  shows "\<not> isGroupPost
    \<and> reaches m0 m1 (if favourite a then [Favourite (post_id post)] else [])"
proof (cases "favourite a")
  case True
  obtain r m' where h: "handleFavourite e post m0 = (r, m')" by (metis surj_pair)
  have m: "m1 = m'" and g: "\<not> isGroupPost"
    using assms True h by (cases r; simp add: favouriteBlock_def isGroupError_empty_object)+
  have "reaches m0 m' [Favourite (post_id post)]"
    using reaches_handleFavourite [of m0 e post] h by simp
  then show ?thesis using True m g by simp
next
  case False
  then show ?thesis using assms by (auto simp: favouriteBlock_def reaches_refl)
qed

lemma reblogBlock_reaches:
  assumes "reblogBlock e post a (executed1, False, m1) = (executed, isGroupPost, m2)"
  shows "\<not> isGroupPost
    \<and> reaches m1 m2 (if reblog a then [Reblog (post_id post)] else [])"
proof (cases "reblog a")
  case True
  obtain r m' where h: "handleReblog e post m1 = (r, m')" by (metis surj_pair)
  have m: "m2 = m'" and g: "\<not> isGroupPost"
    using assms True h by (cases r; simp add: reblogBlock_def isGroupError_empty_object)+
  have "reaches m1 m' [Reblog (post_id post)]"
    using reaches_handleReblog [of m1 e post] h by simp
  then show ?thesis using True m g by simp
next
  case False
  then show ?thesis using assms by (auto simp: reblogBlock_def reaches_refl)
qed

lemma quoteBlock_reaches:
  "reaches m2 (snd (quoteBlock e post a (executed, m2)))
     (if quote a then contentCalls e post ''QUOTE'' quoteParams else [])"
proof (cases "quote a")
  case True
  obtain r m' where h: "handleQuote e post m2 = (r, m')" by (metis surj_pair)
  have a: "reaches m2 m' (contentCalls e post ''QUOTE'' quoteParams)"
    using reaches_handleContent [of m2 e post "''QUOTE''" quoteParams] h
    by (simp add: handleQuote_def)
  have "reaches m' (snd (quoteBlock e post a (executed, m2))) []"
    using True h
    by (auto simp: quoteBlock_def reaches_refl reaches_storeInMemory split: option.splits)
  then show ?thesis using True a reaches_trans_nil by auto
next
  case False
  then show ?thesis by (simp add: quoteBlock_def reaches_refl)
qed

lemma replyBlock_reaches:
  "reaches m3 (snd (replyBlock e post a (executed, m3)))
     (if reply a then contentCalls e post ''REPLY'' replyParams else [])"
proof (cases "reply a")
  case True
  obtain r m' where h: "handleReply e post m3 = (r, m')" by (metis surj_pair)
  have a: "reaches m3 m' (contentCalls e post ''REPLY'' replyParams)"
    using reaches_handleContent [of m3 e post "''REPLY''" replyParams] h
    by (simp add: handleReply_def)
  have "reaches m' (snd (replyBlock e post a (executed, m3))) []"
    using True h
    by (auto simp: replyBlock_def reaches_refl reaches_storeInMemory split: option.splits)
  then show ?thesis using True a reaches_trans_nil by auto
next
  case False
  then show ?thesis by (simp add: replyBlock_def reaches_refl)
qed

lemma reaches_BaseMonitorClient_handlePostActions:
  "reaches m (snd (BaseMonitorClient_handlePostActions e post username a m))
     (postActionCalls e post a)"
proof -
  define m0 where "m0 = storeInMemory e (post_id post) (content post) m"
  obtain executed1 isGroupPost1 m1 where s1:
    "favouriteBlock e post a m0 = (executed1, isGroupPost1, m1)"
    by (metis prod_cases3)
  obtain executed2 isGroupPost2 m2 where s2:
    "reblogBlock e post a (executed1, isGroupPost1, m1) = (executed2, isGroupPost2, m2)"
    by (metis prod_cases3)
  obtain executed3 m3 where s3: "quoteBlock e post a (executed2, m2) = (executed3, m3)"
    by (metis surj_pair)
  have r0: "reaches m m0 []"
    unfolding m0_def by (rule reaches_storeInMemory)
  have g1: "\<not> isGroupPost1"
    and r1: "reaches m0 m1 (if favourite a then [Favourite (post_id post)] else [])"
    using favouriteBlock_reaches [OF s1] by simp_all
  have g2: "\<not> isGroupPost2"
    and r2: "reaches m1 m2 (if reblog a then [Reblog (post_id post)] else [])"
    using reblogBlock_reaches [of e post a executed1 m1 executed2 isGroupPost2 m2] s2 g1
    by simp_all
  have r3: "reaches m2 m3 (if quote a then contentCalls e post ''QUOTE'' quoteParams else [])"
    using quoteBlock_reaches [of m2 e post a executed2] s3 by simp
  have r4: "reaches m3 (snd (replyBlock e post a (executed3, m3)))
      (if reply a then contentCalls e post ''REPLY'' replyParams else [])"
    by (rule replyBlock_reaches)
  have res: "snd (BaseMonitorClient_handlePostActions e post username a m)
      = snd (replyBlock e post a (executed3, m3))"
    using s1 s2 s3 g2
    by (simp add: BaseMonitorClient_handlePostActions_def Let_def m0_def [symmetric])
  have "reaches m (snd (replyBlock e post a (executed3, m3))) (postActionCalls e post a)"
    unfolding postActionCalls_def
    using reaches_trans [OF reaches_trans [OF reaches_trans [OF reaches_trans [OF r0 r1] r2] r3] r4]
    by simp
  then show ?thesis by (simp add: res)
qed

lemma rank_quote_calls:
  "map actionRank (contentCalls e post tag quoteParams)
     = (if contentCalls e post tag quoteParams = [] then [] else [3])"
  by (simp add: contentCalls_def quoteParams_def split: option.split)

lemma rank_reply_calls:
  "map actionRank (contentCalls e post tag replyParams)
     = (if contentCalls e post tag replyParams = [] then [] else [4])"
  by (simp add: contentCalls_def replyParams_def split: option.split)

lemma rank_postActionCalls:
  "map actionRank (postActionCalls e post a) =
     (if favourite a then [1] else []) @
     (if reblog a then [2] else []) @
     (if quote a \<and> contentCalls e post ''QUOTE'' quoteParams \<noteq> [] then [3] else []) @
     (if reply a \<and> contentCalls e post ''REPLY'' replyParams \<noteq> [] then [4] else [])"
  by (simp add: postActionCalls_def rank_quote_calls rank_reply_calls)

lemma sorted_ranks:
  "sorted_wrt (<) ((if a then [1::nat] else []) @ (if b then [2] else []) @
     (if c then [3] else []) @ (if d then [4] else []))"
  by (cases a; cases b; cases c; cases d) simp_all

lemma sorted_postActionCalls: "sorted_wrt (<) (map actionRank (postActionCalls e post a))"
  unfolding rank_postActionCalls by (rule sorted_ranks)

lemma positive_postActionCalls: "c \<in> set (postActionCalls e post a) \<Longrightarrow> 0 < actionRank c"
proof -
  assume "c \<in> set (postActionCalls e post a)"
  then have "actionRank c \<in> set (map actionRank (postActionCalls e post a))"
    by simp
  then show ?thesis
    unfolding rank_postActionCalls by (auto split: if_splits)
qed

definition followCalls ::
  "TruthSocialNotification \<Rightarrow> TruthSocialActionResponse \<Rightarrow> api_call list" where
  "followCalls notification a =
     (if n_type notification = ''follow'' \<and> follow_back a
      then [Follow (account_id notification)] else [])"

lemma reaches_executeNotificationActions:
  "reaches m (snd (executeNotificationActions e notification a m))
     (followCalls notification a @
      (case n_status notification of None \<Rightarrow> [] | Some post \<Rightarrow> postActionCalls e post a))"
proof -
  define m0 where "m0 = emit (Execute (n_id notification)) m"
  define st where "st =
            (if n_type notification = ''follow'' \<and> follow_back a then
               (case request e (Follow (account_id notification)) of
                  Inr r \<Rightarrow> ([''FOLLOW_BACK''], emit (Request (Follow (account_id notification))) m0)
                | Inl error \<Rightarrow> ([], emit (Request (Follow (account_id notification))) m0))
             else ([], m0))"
  obtain executed1 m1 where s1: "st = (executed1, m1)" by (metis surj_pair)
  have r0: "reaches m m0 []"
    by (auto simp: reaches_def extends_def m0_def emit_def)
  have r1: "reaches m0 m1 (followCalls notification a)"
    using s1
    by (auto simp: st_def followCalls_def reaches_def extends_def emit_def
        split: if_splits sum.splits)
  have r01: "reaches m m1 (followCalls notification a)"
    using reaches_trans [OF r0 r1] by simp
  show ?thesis
  proof (cases "n_status notification")
    case None
    then have "snd (executeNotificationActions e notification a m) = m1"
      using s1 by (simp add: executeNotificationActions_def Let_def m0_def [symmetric]
          st_def [symmetric])
    then show ?thesis using None r01 by simp
  next
    case (Some post)
    then have "snd (executeNotificationActions e notification a m)
      = snd (BaseMonitorClient_handlePostActions e post (account_username notification) a m1)"
      using s1 by (simp add: executeNotificationActions_def Let_def m0_def [symmetric]
          st_def [symmetric] split: prod.split)
    then show ?thesis
      using Some reaches_trans [OF r01 reaches_BaseMonitorClient_handlePostActions] by simp
  qed
qed

text \<open>
  Claim C4, as the code has it. The requests that \<open>executeNotificationActions\<close> issues
  for a notification come in strictly increasing rank: follow-back first (rank 0), then
  favourite, reblog, quote and reply, each at most once.
\<close>

theorem executeNotificationActions_order:
  "sorted_wrt (<) (map actionRank
     (requestsOf (newEvents m (snd (executeNotificationActions e notification a m)))))"
proof -
  have "sorted_wrt (<) (map actionRank (followCalls notification a @
      (case n_status notification of None \<Rightarrow> [] | Some post \<Rightarrow> postActionCalls e post a)))"
  proof (cases "n_status notification")
    case None
    then show ?thesis by (simp add: followCalls_def)
  next
    case (Some post)
    show ?thesis
      using Some sorted_postActionCalls [of e post a] positive_postActionCalls [of _ e post a]
      by (auto simp: followCalls_def sorted_wrt_append)
  qed
  then show ?thesis
    using reaches_newEvents [OF reaches_executeNotificationActions] by simp
qed

definition willing_env :: env where
  "willing_env =
     \<lparr>request = (\<lambda>call. Inr ''ok''),
      generateContent = (\<lambda>tag post. Some ''nice''),
      generateTweetActions_post = (\<lambda>post. None),
      generateTweetActions_notification = (\<lambda>notification. None),
      isBlank = (\<lambda>body. body = []),
      processContent = (\<lambda>body. body),
      getUserTimeline = (\<lambda>username. [])\<rparr>"

definition all_actions :: TruthSocialActionResponse where
  "all_actions = \<lparr>favourite = True, reblog = True, quote = True, reply = True, follow_back = True\<rparr>"

definition idle_monitor :: monitor where
  "idle_monitor = \<lparr>memory = {}, trace = [], isProcessing = False, processedItems = {},
     lastCheckedNotificationId = None, lastCheckedPosts = Map.empty, actedOnPosts = {}\<rparr>"

definition follow_with_status :: TruthSocialNotification where
  "follow_with_status = \<lparr>n_id = ''n1'', n_type = ''follow'',
     n_status = Some \<lparr>post_id = ''42'', content = ''hello''\<rparr>,
     account_id = ''9'', account_username = ''bob''\<rparr>"

lemmas executor_defs =
  executeNotificationActions_def BaseMonitorClient_handlePostActions_def favouriteBlock_def
  reblogBlock_def quoteBlock_def replyBlock_def handleFavourite_def handleReblog_def
  handleQuote_def handleReply_def handleContent_def storeInMemory_def emit_def
  isGroupError_def empty_object_def quoteParams_def replyParams_def Let_def

text \<open>
  The claim C4 as stated fails: for a follow notification that carries a status, with
  every action requested, the follow request is issued before the favourite request, and
  \<open>FOLLOW_BACK\<close> heads the list of executed actions.
\<close>

theorem follow_back_comes_first:
  "requestsOf (trace (snd (executeNotificationActions willing_env follow_with_status all_actions
      idle_monitor)))
     = [Follow ''9'', Favourite ''42'', Reblog ''42'',
        CreateStatus (quoteParams ''nice'' ''42''), CreateStatus (replyParams ''nice'' ''42'')]
   \<and> fst (executeNotificationActions willing_env follow_with_status all_actions idle_monitor)
     = [''FOLLOW_BACK'', ''FAVOURITE'', ''REBLOG'', ''QUOTE'', ''REPLY'']"
  by (simp add: executor_defs willing_env_def follow_with_status_def all_actions_def
      idle_monitor_def)

definition group_error :: js_error where
  "group_error = \<lparr>response_status = Some 404, response_error_code = Some ''GROUP_NOT_FOUND'',
     message = Some ''Request failed with status code 404''\<rparr>"

definition group_env :: env where
  "group_env =
     \<lparr>request = (\<lambda>call. case call of Reblog pid \<Rightarrow> Inl group_error | other \<Rightarrow> Inr ''ok''),
      generateContent = (\<lambda>tag post. Some ''nice''),
      generateTweetActions_post = (\<lambda>post. Some all_actions),
      generateTweetActions_notification = (\<lambda>notification. Some all_actions),
      isBlank = (\<lambda>body. body = []),
      processContent = (\<lambda>body. body),
      getUserTimeline = (\<lambda>username. [])\<rparr>"

definition group_post :: TruthSocialPost where
  "group_post = \<lparr>post_id = ''42'', content = ''hello''\<rparr>"

text \<open>
  In \<open>BaseMonitorClient.handlePostActions\<close>, even a thrown error that \<open>isGroupError\<close>
  accepts (status 404 on its \<open>response\<close>, code \<open>GROUP_NOT_FOUND\<close>) does not stop the
  quote and the reply: the error is caught inside \<open>handleReblog\<close>, and the classifier is
  then applied to \<open>{}\<close>.
\<close>

lemma BaseMonitorClient_ignores_classified_error:
  "isGroupError group_error
   \<and> request group_env (Favourite (post_id group_post)) = Inr ''ok''
   \<and> request group_env (Reblog (post_id group_post)) = Inl group_error
   \<and> fst (BaseMonitorClient_handlePostActions group_env group_post ''bob'' all_actions idle_monitor)
       = [''FAVOURITE'', ''QUOTE'', ''REPLY'']
   \<and> requestsOf (trace (snd (BaseMonitorClient_handlePostActions group_env group_post ''bob''
        all_actions idle_monitor)))
       = [Favourite ''42'', Reblog ''42'',
          CreateStatus (quoteParams ''nice'' ''42''), CreateStatus (replyParams ''nice'' ''42'')]"
  by (simp add: executor_defs group_env_def group_error_def group_post_def all_actions_def
      idle_monitor_def)

text \<open>
  The overriding \<open>SearchClient.handlePostActions\<close> and \<open>ClientBase.handlePostActions\<close>
  do stop after such a reblog: only the two requests are issued and \<open>FAVOURITE\<close> is
  returned.
\<close>

lemma SearchClient_group_gating:
  assumes "favourite a" and "reblog a"
    and "request e (Favourite (post_id post)) = Inr r"
    and "request e (Reblog (post_id post)) = Inl err"
    and "isGroupError err"
  shows "SearchClient_handlePostActions e post username a w
    = ([''FAVOURITE''],
       emit (Request (Reblog (post_id post))) (emit (Request (Favourite (post_id post))) w))"
  using assms
  by (simp add: SearchClient_handlePostActions_def SearchClient_reblogBlock_def
      inlineFavouriteBlock_def simpleAction_def)

lemma ClientBase_group_gating:
  assumes "favourite a" and "reblog a"
    and "request e (Favourite (post_id post)) = Inr r"
    and "request e (Reblog (post_id post)) = Inl err"
    and "isGroupError err"
  shows "ClientBase_handlePostActions e post username a w
    = ([''FAVOURITE''],
       emit (Request (Reblog (post_id post))) (emit (Request (Favourite (post_id post))) w))"
  using assms
  by (simp add: ClientBase_handlePostActions_def ClientBase_reblogBlock_def
      inlineFavouriteBlock_def simpleAction_def)

definition group_answer :: string where
  \<open>group_answer = ''{"error":"Record not found","error_code":"GROUP_NOT_FOUND"}''\<close>

definition group_transport :: transport where
  "group_transport = \<lparr>probe = (\<lambda>k. True), grant = (\<lambda>k. GrantRejected 403),
      response = (\<lambda>k. \<lparr>ok = False, http_status = 404, data = group_answer\<rparr>),
      cookiesUsable = True\<rparr>"

definition request_failed_404 :: js_error where
  "request_failed_404 = Error (''Request failed: 404 '' @ group_answer)"

definition platform_env :: env where
  "platform_env =
     \<lparr>request = (\<lambda>call. case call of Reblog pid \<Rightarrow> Inl request_failed_404 | other \<Rightarrow> Inr ''ok''),
      generateContent = (\<lambda>tag post. Some ''nice''),
      generateTweetActions_post = (\<lambda>post. Some all_actions),
      generateTweetActions_notification = (\<lambda>notification. Some all_actions),
      isBlank = (\<lambda>body. body = []),
      processContent = (\<lambda>body. body),
      getUserTimeline = (\<lambda>username. [])\<rparr>"

lemma group_answer_mentions_code: "str_includes group_answer ''GROUP_NOT_FOUND''"
  by (simp add: group_answer_def)

text \<open>
  Claim C2, on the code. The platform answers the reblog request with status 404 and the
  code \<open>GROUP_NOT_FOUND\<close> in the body. \<open>makeAuthenticatedRequest\<close> throws
  \<open>new Error("Request failed: 404 ...")\<close>, which has no \<open>response\<close>, so \<open>isGroupError\<close>
  rejects it although its message holds the code. With every action requested and the
  favourite succeeding, both \<open>SearchClient.handlePostActions\<close> and
  \<open>BaseMonitorClient.handlePostActions\<close> go on to generate and post the quote and the
  reply.
\<close>

theorem group_restriction_does_not_gate:
  "map_option fst (makeAuthenticatedRequest 1 group_transport password_config (Reblog ''42'')
       stale_session) = Some (Inl request_failed_404)
   \<and> \<not> isGroupError request_failed_404
   \<and> fst (SearchClient_handlePostActions platform_env group_post ''bob'' all_actions idle_monitor)
       = [''FAVOURITE'', ''QUOTE'', ''REPLY'']
   \<and> requestsOf (trace (snd (SearchClient_handlePostActions platform_env group_post ''bob''
        all_actions idle_monitor)))
       = [Favourite ''42'', Reblog ''42'',
          CreateStatus (quoteParams ''nice'' ''42''), CreateStatus (replyParams ''nice'' ''42'')]
   \<and> fst (BaseMonitorClient_handlePostActions platform_env group_post ''bob'' all_actions
        idle_monitor)
       = [''FAVOURITE'', ''QUOTE'', ''REPLY'']
   \<and> requestsOf (trace (snd (BaseMonitorClient_handlePostActions platform_env group_post ''bob''
        all_actions idle_monitor)))
       = [Favourite ''42'', Reblog ''42'',
          CreateStatus (quoteParams ''nice'' ''42''), CreateStatus (replyParams ''nice'' ''42'')]"
proof -
  have a: "map_option fst (makeAuthenticatedRequest 1 group_transport password_config (Reblog ''42'')
       stale_session) = Some (Inl request_failed_404)"
    by (simp add: group_transport_def stale_session_def truthy_def Let_def request_failed_404_def
        showNat.simps)
  have b: "\<not> isGroupError request_failed_404"
    by (simp add: request_failed_404_def isGroupError_plain)
  have c: "SearchClient_handlePostActions platform_env group_post ''bob'' all_actions idle_monitor
      = ([''FAVOURITE'', ''QUOTE'', ''REPLY''],
         idle_monitor\<lparr>trace := [Request (Favourite ''42''), Request (Reblog ''42''),
           Generate ''QUOTE'' ''42'', Request (CreateStatus (quoteParams ''nice'' ''42'')),
           Generate ''REPLY'' ''42'', Request (CreateStatus (replyParams ''nice'' ''42''))]\<rparr>)"
    using b
    by (simp add: SearchClient_handlePostActions_def SearchClient_reblogBlock_def
        inlineFavouriteBlock_def inlineQuoteBlock_def inlineReplyBlock_def simpleAction_def
        contentAction_def emit_def platform_env_def group_post_def all_actions_def
        idle_monitor_def Let_def)
  have d: "fst (BaseMonitorClient_handlePostActions platform_env group_post ''bob'' all_actions
        idle_monitor) = [''FAVOURITE'', ''QUOTE'', ''REPLY'']
     \<and> requestsOf (trace (snd (BaseMonitorClient_handlePostActions platform_env group_post ''bob''
        all_actions idle_monitor)))
       = [Favourite ''42'', Reblog ''42'',
          CreateStatus (quoteParams ''nice'' ''42''), CreateStatus (replyParams ''nice'' ''42'')]"
    by (simp add: executor_defs platform_env_def group_post_def all_actions_def idle_monitor_def)
  show ?thesis using a b c d by simp
qed

section \<open>Properties of the timeline poll loop\<close>

text \<open>\<open>traced m m'\<close>: \<open>m'\<close> is \<open>m\<close> with a longer trace and nothing else changed.\<close>

definition traced :: "'a world_scheme \<Rightarrow> 'a world_scheme \<Rightarrow> bool" where
  "traced w w' = (\<exists>new. w' = w\<lparr>trace := trace w @ new\<rparr>)"

lemma traced_refl: "traced w w"
  unfolding traced_def by (intro exI [where x = "[]"]) simp

lemma traced_trans: "traced w w1 \<Longrightarrow> traced w1 w2 \<Longrightarrow> traced w w2"
  unfolding traced_def by (elim exE, intro exI [where x = "_ @ _"]) simp

lemma traced_emit: "traced w (emit ev w)"
  unfolding traced_def emit_def by blast

lemma traced_simpleAction: "traced (snd (snd st)) (snd (snd (simpleAction e call tag st)))"
  by (cases st) (auto simp: simpleAction_def traced_emit split: sum.split)

lemma traced_contentAction: "traced (snd st) (snd (contentAction e post tag params st))"
  by (cases st)
    (auto simp: contentAction_def Let_def traced_emit
      intro: traced_trans [OF traced_emit traced_emit] split: sum.split option.split)

lemma traced_inlineFavouriteBlock: "traced w (snd (snd (inlineFavouriteBlock e post a w)))"
  using traced_simpleAction [of "([], False, w)"]
  by (simp add: inlineFavouriteBlock_def traced_refl)

lemma traced_SearchClient_reblogBlock:
  "traced (snd (snd st)) (snd (snd (SearchClient_reblogBlock e post a st)))"
  by (simp add: SearchClient_reblogBlock_def traced_refl traced_simpleAction)

lemma traced_inlineQuoteBlock: "traced (snd st) (snd (inlineQuoteBlock e post a st))"
  by (simp add: inlineQuoteBlock_def traced_refl traced_contentAction)

lemma traced_inlineReplyBlock: "traced (snd st) (snd (inlineReplyBlock e post a st))"
  by (simp add: inlineReplyBlock_def traced_refl traced_contentAction)

lemma traced_SearchClient_handlePostActions:
  "traced w (snd (SearchClient_handlePostActions e post username a w))"
proof -
  define st1 where "st1 = inlineFavouriteBlock e post a w"
  define st2 where "st2 = SearchClient_reblogBlock e post a st1"
  obtain x2 g2 w2 where s2: "st2 = (x2, g2, w2)" by (metis prod_cases3)
  define st3 where "st3 = inlineQuoteBlock e post a (x2, w2)"
  define st4 where "st4 = inlineReplyBlock e post a st3"
  have r1: "traced w (snd (snd st1))"
    unfolding st1_def by (rule traced_inlineFavouriteBlock)
  have r2: "traced (snd (snd st1)) w2"
    using traced_SearchClient_reblogBlock [of st1 e post a] s2 by (simp add: st2_def)
  have r3: "traced w2 (snd st3)"
    using traced_inlineQuoteBlock [of "(x2, w2)" e post a] by (simp add: st3_def)
  have r4: "traced (snd st3) (snd st4)"
    unfolding st4_def by (rule traced_inlineReplyBlock)
  have r02: "traced w w2" by (rule traced_trans [OF r1 r2])
  have r04: "traced w (snd st4)" by (rule traced_trans [OF traced_trans [OF r02 r3] r4])
  have "snd (SearchClient_handlePostActions e post username a w) = (if g2 then w2 else snd st4)"
    using s2
    by (simp add: SearchClient_handlePostActions_def st1_def [symmetric] st2_def [symmetric]
        st3_def [symmetric] st4_def [symmetric])
  then show ?thesis using r02 r04 by simp
qed

lemma traced_lastCheckedPosts: "traced m m' \<Longrightarrow> lastCheckedPosts m' = lastCheckedPosts m"
  by (auto simp: traced_def)

lemma lastCheckedPosts_storeInMemory:
  "lastCheckedPosts (storeInMemory e ident body m) = lastCheckedPosts m"
  by (simp add: storeInMemory_def emit_def)

lemma lastCheckedPosts_processPost:
  "lastCheckedPosts (processPost e post username shouldTakeActions m) = lastCheckedPosts m"
proof (cases "generateTweetActions_post e post")
  case None
  then show ?thesis by (simp add: processPost_def lastCheckedPosts_storeInMemory)
next
  case (Some a)
  obtain x m1 where h: "SearchClient_handlePostActions e post username a m = (x, m1)"
    by (metis surj_pair)
  have "lastCheckedPosts m1 = lastCheckedPosts m"
    using traced_lastCheckedPosts [OF traced_SearchClient_handlePostActions [of m e post username a]] h
    by simp
  then show ?thesis
    using Some h by (simp add: processPost_def lastCheckedPosts_storeInMemory)
qed

lemma lastCheckedPosts_processPosts:
  "lastCheckedPosts (processPosts e username isNew posts m) = lastCheckedPosts m"
  by (induction posts arbitrary: m) (simp_all add: lastCheckedPosts_processPost)

text \<open>
  Claim C3, as the code has it. After the fetch for a username, an empty result leaves
  every watermark as it was; a result with at least one post overwrites the watermark of
  that username with the id of the first post returned, whatever the old value, and
  leaves the other usernames' watermarks alone.
\<close>

theorem checkUser_sets_watermark_to_first:
  "lastCheckedPosts (checkUser e username m) =
     (case getUserTimeline e username of
        [] \<Rightarrow> lastCheckedPosts m
      | first # others \<Rightarrow> (lastCheckedPosts m)(username \<mapsto> post_id first))"
  by (simp add: checkUser_def Let_def lastCheckedPosts_processPosts split: list.split)

definition quiet_env :: "TruthSocialPost list \<Rightarrow> env" where
  "quiet_env posts =
     \<lparr>request = (\<lambda>call. Inr ''ok''),
      generateContent = (\<lambda>tag post. None),
      generateTweetActions_post = (\<lambda>post. None),
      generateTweetActions_notification = (\<lambda>notification. None),
      isBlank = (\<lambda>body. body = []),
      processContent = (\<lambda>body. body),
      getUserTimeline = (\<lambda>username. posts)\<rparr>"

lemmas search_defs =
  SearchClient_checkItems_def checkUser_def processPost_def storeInMemory_def emit_def
  truthy_def Let_def

text \<open>
  The claim C3 as stated fails: with the watermark at \<open>5\<close>, a fetch that returns only
  the older post \<open>3\<close> (the newer one having been deleted, say) moves the watermark back
  to \<open>3\<close>.
\<close>

theorem watermark_regresses:
  "lastCheckedPosts
     (SearchClient_checkItems (quiet_env [\<lparr>post_id = ''3'', content = ''old''\<rparr>]) [''alice'']
        (idle_monitor\<lparr>lastCheckedPosts := [''alice'' \<mapsto> ''5'']\<rparr>)) ''alice'' = Some ''3''
   \<and> ''3'' < ''5''"
  by (simp add: search_defs quiet_env_def idle_monitor_def)

definition storable :: "env \<Rightarrow> TruthSocialPost \<Rightarrow> bool" where
  "storable e post =
     (\<not> isBlank e (content post) \<and> \<not> isBlank e (processContent e (content post)))"

fun isCreateMemory :: "event \<Rightarrow> bool" where
  "isCreateMemory (CreateMemory ident) = True"
| "isCreateMemory other = False"

text \<open>
  \<open>stores m m'\<close>: from \<open>m\<close> to \<open>m'\<close> only memory records were created, and none was lost.
\<close>

definition stores :: "monitor \<Rightarrow> monitor \<Rightarrow> bool" where
  "stores m m' =
     ((\<exists>new. trace m' = trace m @ new \<and> list_all isCreateMemory new) \<and> memory m \<subseteq> memory m')"

lemma stores_refl: "stores m m"
  by (simp add: stores_def)

lemma stores_trans:
  assumes "stores m m1" and "stores m1 m2"
  shows "stores m m2"
proof -
  obtain a where a: "trace m1 = trace m @ a" "list_all isCreateMemory a"
    using assms(1) by (auto simp: stores_def)
  obtain b where b: "trace m2 = trace m1 @ b" "list_all isCreateMemory b"
    using assms(2) by (auto simp: stores_def)
  have "trace m2 = trace m @ (a @ b) \<and> list_all isCreateMemory (a @ b)"
    using a b by simp
  moreover have "memory m \<subseteq> memory m2"
    using assms by (auto simp: stores_def)
  ultimately show ?thesis unfolding stores_def by blast
qed

lemma stores_newEvents: "stores m m' \<Longrightarrow> list_all isCreateMemory (newEvents m m')"
  by (auto simp: stores_def newEvents_def)

lemma processPost_no_actions:
  "stores m (processPost e post username False m)
   \<and> (storable e post \<longrightarrow> post_id post \<in> memory (processPost e post username False m))"
  by (auto simp: processPost_def storeInMemory_def emit_def stores_def storable_def)

lemma processPosts_no_actions:
  "stores m (processPosts e username (\<lambda>post. False) posts m)
   \<and> (\<forall>post \<in> set posts. storable e post \<longrightarrow>
         post_id post \<in> memory (processPosts e username (\<lambda>post. False) posts m))"
proof (induction posts arbitrary: m)
  case Nil
  show ?case by (simp add: stores_refl)
next
  case (Cons p posts)
  let ?m1 = "processPost e p username False m"
  let ?m2 = "processPosts e username (\<lambda>post. False) posts ?m1"
  have a: "stores m ?m1" and b: "storable e p \<longrightarrow> post_id p \<in> memory ?m1"
    using processPost_no_actions [of m e p username] by simp_all
  have c: "stores ?m1 ?m2"
    and d: "\<forall>post \<in> set posts. storable e post \<longrightarrow> post_id post \<in> memory ?m2"
    using Cons.IH [of ?m1] by simp_all
  have "memory ?m1 \<subseteq> memory ?m2" using c by (simp add: stores_def)
  then have "storable e p \<longrightarrow> post_id p \<in> memory ?m2" using b by blast
  then show ?case using stores_trans [OF a c] d by simp
qed

text \<open>
  Claim C6, as the code has it. For a username without a watermark whose fetch returns
  at least one post: every returned post whose content and processed content are not
  blank has a memory record afterwards; nothing but memory records is produced (no
  request, no content generation); and the watermark becomes the id of the first post
  returned.
\<close>

theorem first_contact_policy:
  assumes "lastCheckedPosts m username = None"
    and "getUserTimeline e username = first # others"
  shows "(\<forall>post \<in> set (first # others). storable e post \<longrightarrow>
            post_id post \<in> memory (checkUser e username m))
    \<and> list_all isCreateMemory (newEvents m (checkUser e username m))
    \<and> lastCheckedPosts (checkUser e username m) username = Some (post_id first)"
proof -
  let ?m1 = "processPosts e username (\<lambda>post. False) (first # others) m"
  have c: "checkUser e username m
      = ?m1\<lparr>lastCheckedPosts := (lastCheckedPosts ?m1)(username \<mapsto> post_id first)\<rparr>"
    using assms by (simp add: checkUser_def Let_def truthy_def)
  have s: "stores m ?m1"
    and p: "\<forall>post \<in> set (first # others). storable e post \<longrightarrow> post_id post \<in> memory ?m1"
    using processPosts_no_actions [of m e username "first # others"] by simp_all
  have "list_all isCreateMemory (newEvents m ?m1)"
    by (rule stores_newEvents [OF s])
  then have "list_all isCreateMemory (newEvents m (checkUser e username m))"
    by (simp add: c newEvents_def)
  then show ?thesis using p by (simp add: c)
qed

definition textless_post :: TruthSocialPost where
  "textless_post = \<lparr>post_id = ''7'', content = []\<rparr>"

text \<open>
  The claim C6 as stated fails: a post without text (an image-only post) fetched on first
  contact gets no memory record.
\<close>

theorem textless_post_is_not_persisted:
  "lastCheckedPosts idle_monitor ''alice'' = None
   \<and> getUserTimeline (quiet_env [textless_post]) ''alice'' = [textless_post]
   \<and> post_id textless_post \<notin>
       memory (SearchClient_checkItems (quiet_env [textless_post]) [''alice''] idle_monitor)"
  by (simp add: search_defs quiet_env_def idle_monitor_def textless_post_def)

theorem first_contact_policy_witness:
  "lastCheckedPosts idle_monitor ''alice'' = None
   \<and> getUserTimeline (quiet_env [\<lparr>post_id = ''9'', content = ''new''\<rparr>,
                                  \<lparr>post_id = ''8'', content = ''old''\<rparr>]) ''alice''
     = [\<lparr>post_id = ''9'', content = ''new''\<rparr>, \<lparr>post_id = ''8'', content = ''old''\<rparr>]
   \<and> memory (checkUser (quiet_env [\<lparr>post_id = ''9'', content = ''new''\<rparr>,
                                  \<lparr>post_id = ''8'', content = ''old''\<rparr>]) ''alice'' idle_monitor)
     = {''8'', ''9''}
   \<and> trace (checkUser (quiet_env [\<lparr>post_id = ''9'', content = ''new''\<rparr>,
                                  \<lparr>post_id = ''8'', content = ''old''\<rparr>]) ''alice'' idle_monitor)
     = [CreateMemory ''9'', CreateMemory ''8'']
   \<and> lastCheckedPosts (checkUser (quiet_env [\<lparr>post_id = ''9'', content = ''new''\<rparr>,
                                  \<lparr>post_id = ''8'', content = ''old''\<rparr>]) ''alice'' idle_monitor)
       ''alice'' = Some ''9''"
proof -
  let ?e = "quiet_env [\<lparr>post_id = ''9'', content = ''new''\<rparr>, \<lparr>post_id = ''8'', content = ''old''\<rparr>]"
  have a: "lastCheckedPosts idle_monitor ''alice'' = None"
    by (simp add: idle_monitor_def)
  have b: "getUserTimeline ?e ''alice''
      = \<lparr>post_id = ''9'', content = ''new''\<rparr> # [\<lparr>post_id = ''8'', content = ''old''\<rparr>]"
    by (simp add: quiet_env_def)
  note w = first_contact_policy [OF a b]
  have m: "memory (checkUser ?e ''alice'' idle_monitor) \<subseteq> {''8'', ''9''}"
    by (simp add: search_defs quiet_env_def idle_monitor_def)
  have s: "storable ?e \<lparr>post_id = ''9'', content = ''new''\<rparr>"
      "storable ?e \<lparr>post_id = ''8'', content = ''old''\<rparr>"
    by (simp_all add: storable_def quiet_env_def)
  have t: "trace (checkUser ?e ''alice'' idle_monitor) = [CreateMemory ''9'', CreateMemory ''8'']"
    by (simp add: search_defs quiet_env_def idle_monitor_def)
  from w s m t a b show ?thesis by auto
qed

section \<open>Properties of the notification poll loop\<close>

fun executionsOf :: "event list \<Rightarrow> string list" where
  "executionsOf [] = []"
| "executionsOf (Execute ident # t) = ident # executionsOf t"
| "executionsOf (other # t) = executionsOf t"

lemma executionsOf_append: "executionsOf (a @ b) = executionsOf a @ executionsOf b"
  by (induction a rule: executionsOf.induct) simp_all

text \<open>
  \<open>grows S xs m m'\<close>: from \<open>m\<close> to \<open>m'\<close> the trace is extended, the executor is entered
  for the ids \<open>xs\<close> in this order, and \<open>processedItems\<close> and \<open>memory\<close> gain ids of \<open>S\<close>
  only and lose none.
\<close>

definition grows :: "string set \<Rightarrow> string list \<Rightarrow> monitor \<Rightarrow> monitor \<Rightarrow> bool" where
  "grows S xs m m' =
     ((\<exists>new. trace m' = trace m @ new \<and> executionsOf new = xs) \<and>
      processedItems m \<subseteq> processedItems m' \<and> processedItems m' \<subseteq> processedItems m \<union> S \<and>
      memory m \<subseteq> memory m' \<and> memory m' \<subseteq> memory m \<union> S)"

lemma grows_refl: "grows S [] m m"
  by (simp add: grows_def)

lemma grows_trans: "grows S xs m m1 \<Longrightarrow> grows S ys m1 m2 \<Longrightarrow> grows S (xs @ ys) m m2"
  unfolding grows_def
  by (elim conjE exE, intro conjI exI [where x = "_ @ _"])
    (auto simp: executionsOf_append)

lemma grows_mono: "grows S xs m m' \<Longrightarrow> S \<subseteq> T \<Longrightarrow> grows T xs m m'"
  unfolding grows_def by blast

lemma grows_newEvents: "grows S xs m m' \<Longrightarrow> executionsOf (newEvents m m') = xs"
  by (auto simp: grows_def newEvents_def)

lemma grows_emit: "\<forall>i. ev \<noteq> Execute i \<Longrightarrow> grows S [] m (emit ev m)"
  by (cases ev) (auto simp: grows_def emit_def)

lemma grows_storeInMemory: "grows {ident} [] m (storeInMemory e ident body m)"
  by (auto simp: grows_def storeInMemory_def emit_def)

lemma grows_handleFavourite: "grows {} [] m (snd (handleFavourite e post m))"
  by (auto simp: grows_def handleFavourite_def emit_def split: sum.split)

lemma grows_handleReblog: "grows {} [] m (snd (handleReblog e post m))"
  by (auto simp: grows_def handleReblog_def emit_def split: sum.split)

lemma grows_handleContent: "grows {} [] m (snd (handleContent e post tag params m))"
  by (auto simp: grows_def handleContent_def emit_def Let_def split: sum.split option.split)

lemma grows_favouriteBlock: "grows {} [] m (snd (snd (favouriteBlock e post a m)))"
proof (cases "favourite a")
  case True
  obtain r m' where h: "handleFavourite e post m = (r, m')" by (metis surj_pair)
  then have "snd (snd (favouriteBlock e post a m)) = m'"
    using True by (cases r) (simp_all add: favouriteBlock_def)
  then show ?thesis using grows_handleFavourite [of m e post] h by simp
next
  case False
  then show ?thesis by (simp add: favouriteBlock_def grows_refl)
qed

lemma grows_reblogBlock: "grows {} [] (snd (snd st)) (snd (snd (reblogBlock e post a st)))"
proof -
  obtain x g m where st: "st = (x, g, m)" by (metis prod_cases3)
  show ?thesis
  proof (cases "reblog a \<and> \<not> g")
    case True
    obtain r m' where h: "handleReblog e post m = (r, m')" by (metis surj_pair)
    then have "snd (snd (reblogBlock e post a st)) = m'"
      using True st by (cases r) (simp_all add: reblogBlock_def)
    then show ?thesis using grows_handleReblog [of m e post] h st by simp
  next
    case False
    then show ?thesis using st by (auto simp: reblogBlock_def grows_refl)
  qed
qed

lemma grows_quoteBlock:
  "grows {post_id post @ ''-quote''} [] (snd st) (snd (quoteBlock e post a st))"
proof -
  obtain x m where st: "st = (x, m)" by (metis surj_pair)
  show ?thesis
  proof (cases "quote a")
    case True
    obtain r m' where h: "handleQuote e post m = (r, m')" by (metis surj_pair)
    have a: "grows {post_id post @ ''-quote''} [] m m'"
      using grows_handleContent [of m e post "''QUOTE''" quoteParams] h
      by (auto simp: handleQuote_def intro: grows_mono)
    have "grows {post_id post @ ''-quote''} [] m' (snd (quoteBlock e post a st))"
      using True h st
      by (auto simp: quoteBlock_def grows_refl grows_storeInMemory split: option.splits)
    then show ?thesis using grows_trans [OF a] st by force
  next
    case False
    then show ?thesis using st by (simp add: quoteBlock_def grows_refl)
  qed
qed

lemma grows_replyBlock:
  "grows {post_id post @ ''-reply''} [] (snd st) (snd (replyBlock e post a st))"
proof -
  obtain x m where st: "st = (x, m)" by (metis surj_pair)
  show ?thesis
  proof (cases "reply a")
    case True
    obtain r m' where h: "handleReply e post m = (r, m')" by (metis surj_pair)
    have a: "grows {post_id post @ ''-reply''} [] m m'"
      using grows_handleContent [of m e post "''REPLY''" replyParams] h
      by (auto simp: handleReply_def intro: grows_mono)
    have "grows {post_id post @ ''-reply''} [] m' (snd (replyBlock e post a st))"
      using True h st
      by (auto simp: replyBlock_def grows_refl grows_storeInMemory split: option.splits)
    then show ?thesis using grows_trans [OF a] st by force
  next
    case False
    then show ?thesis using st by (simp add: replyBlock_def grows_refl)
  qed
qed

definition postIds :: "TruthSocialPost \<Rightarrow> string set" where
  "postIds post = {post_id post, post_id post @ ''-quote'', post_id post @ ''-reply''}"

lemma grows_BaseMonitorClient_handlePostActions:
  "grows (postIds post) [] m (snd (BaseMonitorClient_handlePostActions e post username a m))"
proof -
  let ?S = "postIds post"
  define m0 where "m0 = storeInMemory e (post_id post) (content post) m"
  define st1 where "st1 = favouriteBlock e post a m0"
  define st2 where "st2 = reblogBlock e post a st1"
  obtain x2 g2 m2 where s2: "st2 = (x2, g2, m2)" by (metis prod_cases3)
  define st3 where "st3 = quoteBlock e post a (x2, m2)"
  define st4 where "st4 = replyBlock e post a st3"
  have r0: "grows ?S [] m m0"
    unfolding m0_def by (rule grows_mono [OF grows_storeInMemory]) (simp add: postIds_def)
  have r1: "grows ?S [] m0 (snd (snd st1))"
    unfolding st1_def by (rule grows_mono [OF grows_favouriteBlock]) simp
  have r2: "grows ?S [] (snd (snd st1)) m2"
    using grows_mono [OF grows_reblogBlock [of st1 e post a], of ?S] s2
    by (simp add: st2_def)
  have r3: "grows ?S [] m2 (snd st3)"
    using grows_mono [OF grows_quoteBlock [of post "(x2, m2)" e a], of ?S]
    by (simp add: st3_def postIds_def)
  have r4: "grows ?S [] (snd st3) (snd st4)"
    unfolding st4_def by (rule grows_mono [OF grows_replyBlock]) (simp add: postIds_def)
  have r02: "grows ?S [] m m2"
    using grows_trans [OF grows_trans [OF r0 r1] r2] by simp
  have r04: "grows ?S [] m (snd st4)"
    using grows_trans [OF grows_trans [OF r02 r3] r4] by simp
  have "snd (BaseMonitorClient_handlePostActions e post username a m)
      = (if g2 then m2 else snd st4)"
    using s2
    by (simp add: BaseMonitorClient_handlePostActions_def Let_def m0_def [symmetric]
        st1_def [symmetric] st2_def [symmetric] st3_def [symmetric] st4_def [symmetric])
  then show ?thesis using r02 r04 by simp
qed

definition touched :: "TruthSocialNotification \<Rightarrow> string set" where
  "touched notification =
     insert (n_id notification)
       (case n_status notification of None \<Rightarrow> {} | Some post \<Rightarrow> postIds post)"

lemma grows_executeNotificationActions:
  "grows (touched notification) [n_id notification] m
     (snd (executeNotificationActions e notification a m))"
proof -
  let ?S = "touched notification"
  define m0 where "m0 = emit (Execute (n_id notification)) m"
  define st where "st =
            (if n_type notification = ''follow'' \<and> follow_back a then
               (case request e (Follow (account_id notification)) of
                  Inr r \<Rightarrow> ([''FOLLOW_BACK''], emit (Request (Follow (account_id notification))) m0)
                | Inl error \<Rightarrow> ([], emit (Request (Follow (account_id notification))) m0))
             else ([], m0))"
  obtain executed1 m1 where s1: "st = (executed1, m1)" by (metis surj_pair)
  have r0: "grows ?S [n_id notification] m m0"
    by (auto simp: grows_def m0_def emit_def)
  have r1: "grows ?S [] m0 m1"
    using s1 by (auto simp: st_def grows_refl grows_emit split: if_splits sum.splits)
  have r01: "grows ?S [n_id notification] m m1"
    using grows_trans [OF r0 r1] by simp
  show ?thesis
  proof (cases "n_status notification")
    case None
    then have "snd (executeNotificationActions e notification a m) = m1"
      using s1 by (simp add: executeNotificationActions_def Let_def m0_def [symmetric]
          st_def [symmetric])
    then show ?thesis using r01 by simp
  next
    case (Some post)
    then have res: "snd (executeNotificationActions e notification a m)
      = snd (BaseMonitorClient_handlePostActions e post (account_username notification) a m1)"
      using s1 by (simp add: executeNotificationActions_def Let_def m0_def [symmetric]
          st_def [symmetric] split: prod.split)
    have "postIds post \<subseteq> ?S"
      using Some by (auto simp: touched_def)
    then have "grows ?S [] m1
        (snd (BaseMonitorClient_handlePostActions e post (account_username notification) a m1))"
      by (rule grows_mono [OF grows_BaseMonitorClient_handlePostActions])
    then show ?thesis using grows_trans [OF r01] res by force
  qed
qed

lemma grows_handleNotification_throws:
  "generateTweetActions_notification e notification = None \<Longrightarrow>
   handleNotification e notification m = (Inl (), m)"
  by (simp add: handleNotification_def)

lemma grows_handleNotification:
  assumes "generateTweetActions_notification e notification = Some a"
  shows "fst (handleNotification e notification m) = Inr ()
    \<and> grows (touched notification) [n_id notification] m (snd (handleNotification e notification m))"
proof -
  obtain x m1 where h: "executeNotificationActions e notification a m = (x, m1)"
    by (metis surj_pair)
  have a: "grows (touched notification) [n_id notification] m m1"
    using grows_executeNotificationActions [of notification m e a] h by simp
  have b: "grows (touched notification) [] m1
      (storeInMemory e (n_id notification)
         (case n_status notification of None \<Rightarrow> [] | Some post \<Rightarrow> content post) m1)"
    by (rule grows_mono [OF grows_storeInMemory]) (simp add: touched_def)
  show ?thesis
    using assms h grows_trans [OF a b] by (simp add: handleNotification_def)
qed

lemma grows_mark:
  "grows S xs m m1 \<Longrightarrow> ident \<in> S \<Longrightarrow>
   grows S xs m (m1\<lparr>lastCheckedNotificationId := l,
                     processedItems := insert ident (processedItems m1)\<rparr>)"
  unfolding grows_def by auto

lemma notificationStep_seen:
  assumes "n_id notification \<in> processedItems m \<union> memory m"
  shows "grows (touched notification) [] m (notificationStep e notification m)"
  using assms by (auto simp: notificationStep_def grows_def touched_def)

lemma notificationStep_new:
  assumes "n_id notification \<notin> processedItems m \<union> memory m"
    and "generateTweetActions_notification e notification = Some a"
  shows "grows (touched notification) [n_id notification] m (notificationStep e notification m)
    \<and> n_id notification \<in> processedItems (notificationStep e notification m)"
proof -
  obtain r m1 where h: "handleNotification e notification m = (r, m1)" by (metis surj_pair)
  have r: "r = Inr ()" and g: "grows (touched notification) [n_id notification] m m1"
    using grows_handleNotification [OF assms(2), of m] h by simp_all
  have step: "notificationStep e notification m
      = m1\<lparr>lastCheckedNotificationId := Some (n_id notification),
            processedItems := insert (n_id notification) (processedItems m1)\<rparr>"
    using assms(1) h r by (simp add: notificationStep_def)
  have "n_id notification \<in> touched notification" by (simp add: touched_def)
  from grows_mark [OF g this] step show ?thesis by simp
qed

lemma notificationStep_any:
  "\<exists>xs. grows (touched notification) xs m (notificationStep e notification m)
     \<and> set xs \<subseteq> {n_id notification} \<and> set xs \<inter> (processedItems m \<union> memory m) = {}"
proof (cases "n_id notification \<in> processedItems m \<union> memory m")
  case True
  from notificationStep_seen [OF this] show ?thesis by (intro exI [where x = "[]"]) simp
next
  case False
  show ?thesis
  proof (cases "generateTweetActions_notification e notification")
    case None
    then have "notificationStep e notification m = m"
      using False by (simp add: notificationStep_def handleNotification_def)
    then show ?thesis by (intro exI [where x = "[]"]) (simp add: grows_refl)
  next
    case (Some a)
    from notificationStep_new [OF False Some] False show ?thesis
      by (intro exI [where x = "[n_id notification]"]) simp
  qed
qed

definition touchedAll :: "TruthSocialNotification list \<Rightarrow> string set" where
  "touchedAll ns = (\<Union>notification \<in> set ns. touched notification)"

lemma notificationLoop_any:
  "\<exists>xs. grows (touchedAll ns) xs m (notificationLoop e ns m)
     \<and> set xs \<inter> (processedItems m \<union> memory m) = {}"
proof (induction ns arbitrary: m)
  case Nil
  show ?case by (intro exI [where x = "[]"]) (simp add: grows_refl)
next
  case (Cons n ns)
  let ?m1 = "notificationStep e n m"
  obtain xs where a: "grows (touched n) xs m ?m1"
    and xs: "set xs \<inter> (processedItems m \<union> memory m) = {}"
    using notificationStep_any [of n m e] by blast
  obtain ys where b: "grows (touchedAll ns) ys ?m1 (notificationLoop e ns ?m1)"
    and ys: "set ys \<inter> (processedItems ?m1 \<union> memory ?m1) = {}"
    using Cons.IH [of ?m1] by blast
  have sub: "processedItems m \<union> memory m \<subseteq> processedItems ?m1 \<union> memory ?m1"
    using a unfolding grows_def by blast
  have "grows (touchedAll (n # ns)) (xs @ ys) m (notificationLoop e ns ?m1)"
    by (rule grows_trans [OF grows_mono [OF a] grows_mono [OF b]])
      (auto simp: touchedAll_def)
  moreover have "set (xs @ ys) \<inter> (processedItems m \<union> memory m) = {}"
    using xs ys sub by auto
  ultimately have "grows (touchedAll (n # ns)) (xs @ ys) m (notificationLoop e (n # ns) m)
      \<and> set (xs @ ys) \<inter> (processedItems m \<union> memory m) = {}"
    by simp
  then show ?case by blast
qed

text \<open>
  No notification in the list has an id that handling an earlier one of the list stores:
  its own id, the id of the status it carries, or that id with \<open>-quote\<close> or \<open>-reply\<close>.
\<close>

fun independent :: "TruthSocialNotification list \<Rightarrow> bool" where
  "independent [] = True"
| "independent (n # ns) = (list_all (\<lambda>k. n_id k \<notin> touched n) ns \<and> independent ns)"

lemma notificationLoop_fresh:
  assumes "independent ns"
    and "list_all (\<lambda>n. n_id n \<notin> processedItems m \<union> memory m) ns"
    and "list_all (\<lambda>n. generateTweetActions_notification e n \<noteq> None) ns"
  shows "grows (touchedAll ns) (map n_id ns) m (notificationLoop e ns m)
    \<and> set (map n_id ns) \<subseteq> processedItems (notificationLoop e ns m)"
  using assms
proof (induction ns arbitrary: m)
  case Nil
  show ?case by (simp add: grows_refl)
next
  case (Cons n ns)
  let ?m1 = "notificationStep e n m"
  obtain a where dec: "generateTweetActions_notification e n = Some a"
    using Cons.prems(3) by auto
  have new: "n_id n \<notin> processedItems m \<union> memory m"
    using Cons.prems(2) by simp
  have g: "grows (touched n) [n_id n] m ?m1" and p: "n_id n \<in> processedItems ?m1"
    using notificationStep_new [OF new dec] by simp_all
  have fresh': "list_all (\<lambda>k. n_id k \<notin> processedItems ?m1 \<union> memory ?m1) ns"
  proof -
    have "\<And>k. k \<in> set ns \<Longrightarrow> n_id k \<notin> processedItems ?m1 \<union> memory ?m1"
    proof -
      fix k assume k: "k \<in> set ns"
      then have "n_id k \<notin> touched n" and "n_id k \<notin> processedItems m \<union> memory m"
        using Cons.prems(1,2) by (auto simp: list_all_iff)
      then show "n_id k \<notin> processedItems ?m1 \<union> memory ?m1"
        using g unfolding grows_def by blast
    qed
    then show ?thesis by (simp add: list_all_iff)
  qed
  have ih: "grows (touchedAll ns) (map n_id ns) ?m1 (notificationLoop e ns ?m1)
      \<and> set (map n_id ns) \<subseteq> processedItems (notificationLoop e ns ?m1)"
    using Cons.IH [of ?m1] Cons.prems(1,3) fresh' by simp
  have "grows (touchedAll (n # ns)) ([n_id n] @ map n_id ns) m (notificationLoop e ns ?m1)"
    by (rule grows_trans [OF grows_mono [OF g] grows_mono [OF conjunct1 [OF ih]]])
      (auto simp: touchedAll_def)
  moreover have "n_id n \<in> processedItems (notificationLoop e ns ?m1)"
    using p ih unfolding grows_def by blast
  ultimately show ?case
    using ih by simp
qed

lemma NotificationsClient_checkItems_loop:
  "\<not> isProcessing m \<Longrightarrow>
   NotificationsClient_checkItems e fetched m
     = (notificationLoop e (rev fetched) (m\<lparr>isProcessing := True\<rparr>))\<lparr>isProcessing := False\<rparr>"
  by (cases fetched) (simp_all add: NotificationsClient_checkItems_def Let_def)

lemma grows_isProcessing_in: "grows S xs (m\<lparr>isProcessing := b\<rparr>) m' \<Longrightarrow> grows S xs m m'"
  by (simp add: grows_def)

lemma grows_isProcessing_out: "grows S xs m m' \<Longrightarrow> grows S xs m (m'\<lparr>isProcessing := b\<rparr>)"
  by (simp add: grows_def)

lemma NotificationsClient_checkItems_skips_seen:
  "set (executionsOf (newEvents m (NotificationsClient_checkItems e fetched m)))
     \<inter> (processedItems m \<union> memory m) = {}"
proof (cases "isProcessing m")
  case True
  then show ?thesis by (simp add: NotificationsClient_checkItems_def newEvents_def)
next
  case False
  let ?m0 = "m\<lparr>isProcessing := True\<rparr>"
  obtain xs where g: "grows (touchedAll (rev fetched)) xs ?m0 (notificationLoop e (rev fetched) ?m0)"
    and d: "set xs \<inter> (processedItems ?m0 \<union> memory ?m0) = {}"
    using notificationLoop_any [of "rev fetched" ?m0 e] by blast
  have "grows (touchedAll (rev fetched)) xs m (NotificationsClient_checkItems e fetched m)"
    using grows_isProcessing_out [OF grows_isProcessing_in [OF g]]
    by (simp add: NotificationsClient_checkItems_loop [OF False])
  from grows_newEvents [OF this] d show ?thesis by simp
qed

text \<open>
  Claim C5, as the code has it. In an iteration that does not overlap a running one,
  when no fetched notification was seen before (neither in \<open>processedItems\<close> nor in
  memory), the decision call throws for none of them, and none has an id that handling
  an earlier one stores (the id of the status it carries, or that id with \<open>-quote\<close> or
  \<open>-reply\<close>), the executor is entered once for each fetched notification, oldest first,
  and all their ids are in \<open>processedItems\<close> afterwards. And in every iteration, the
  executor is entered for no id that was in \<open>processedItems\<close> or in memory before it.
\<close>

theorem notifications_oldest_first:
  assumes "\<not> isProcessing m"
    and "independent (rev fetched)"
    and "list_all (\<lambda>n. n_id n \<notin> processedItems m \<union> memory m) fetched"
    and "list_all (\<lambda>n. generateTweetActions_notification e n \<noteq> None) fetched"
  shows "executionsOf (newEvents m (NotificationsClient_checkItems e fetched m))
           = map n_id (rev fetched)
    \<and> n_id ` set fetched \<subseteq> processedItems (NotificationsClient_checkItems e fetched m)
    \<and> (\<forall>m0 others. set (executionsOf (newEvents m0 (NotificationsClient_checkItems e others m0)))
          \<inter> (processedItems m0 \<union> memory m0) = {})"
proof -
  let ?m0 = "m\<lparr>isProcessing := True\<rparr>"
  have f: "list_all (\<lambda>n. n_id n \<notin> processedItems ?m0 \<union> memory ?m0) (rev fetched)"
    using assms(3) by (simp add: list_all_iff)
  have d: "list_all (\<lambda>n. generateTweetActions_notification e n \<noteq> None) (rev fetched)"
    using assms(4) by (simp add: list_all_iff)
  have g: "grows (touchedAll (rev fetched)) (map n_id (rev fetched)) ?m0
        (notificationLoop e (rev fetched) ?m0)"
    and p: "set (map n_id (rev fetched)) \<subseteq> processedItems (notificationLoop e (rev fetched) ?m0)"
    using notificationLoop_fresh [OF assms(2) f d] by simp_all
  have "grows (touchedAll (rev fetched)) (map n_id (rev fetched)) m
      (NotificationsClient_checkItems e fetched m)"
    using grows_isProcessing_out [OF grows_isProcessing_in [OF g]]
    by (simp add: NotificationsClient_checkItems_loop [OF assms(1)])
  from grows_newEvents [OF this] p NotificationsClient_checkItems_skips_seen
  show ?thesis by (simp add: NotificationsClient_checkItems_loop [OF assms(1)])
qed

definition mention :: "string \<Rightarrow> string \<Rightarrow> TruthSocialNotification" where
  "mention ident pid = \<lparr>n_id = ident, n_type = ''mention'',
     n_status = Some \<lparr>post_id = pid, content = ''hello''\<rparr>,
     account_id = ''9'', account_username = ''bob''\<rparr>"

definition favouring_env :: "(TruthSocialNotification \<Rightarrow> bool) \<Rightarrow> env" where
  "favouring_env answered =
     \<lparr>request = (\<lambda>call. Inr ''ok''),
      generateContent = (\<lambda>tag post. None),
      generateTweetActions_post = (\<lambda>post. None),
      generateTweetActions_notification =
        (\<lambda>notification. if answered notification
           then Some \<lparr>favourite = True, reblog = False, quote = False, reply = False,
                      follow_back = False\<rparr>
           else None),
      isBlank = (\<lambda>body. body = []),
      processContent = (\<lambda>body. body),
      getUserTimeline = (\<lambda>username. [])\<rparr>"

lemmas notification_defs =
  NotificationsClient_checkItems_def notificationStep_def handleNotification_def
  executeNotificationActions_def BaseMonitorClient_handlePostActions_def favouriteBlock_def
  reblogBlock_def quoteBlock_def replyBlock_def handleFavourite_def handleReblog_def
  handleQuote_def handleReply_def handleContent_def storeInMemory_def emit_def
  isGroupError_def empty_object_def quoteParams_def replyParams_def Let_def

text \<open>
  The claim C5 as stated fails in two ways. When the decision call throws for \<open>n1\<close>,
  the executor is entered for \<open>n2\<close> and \<open>n3\<close> only and \<open>n1\<close> is not marked processed.
  And when the oldest notification \<open>1\<close> carries the status \<open>2\<close>, storing that status
  marks the id \<open>2\<close> processed, so that the notification \<open>2\<close> is skipped.
\<close>

theorem unseen_notifications_not_all_executed:
  "executionsOf (trace (NotificationsClient_checkItems (favouring_env (\<lambda>n. n_id n \<noteq> ''n1''))
      [mention ''n3'' ''103'', mention ''n2'' ''102'', mention ''n1'' ''101''] idle_monitor))
     = [''n2'', ''n3'']
   \<and> ''n1'' \<notin> processedItems (NotificationsClient_checkItems (favouring_env (\<lambda>n. n_id n \<noteq> ''n1''))
      [mention ''n3'' ''103'', mention ''n2'' ''102'', mention ''n1'' ''101''] idle_monitor)
   \<and> executionsOf (trace (NotificationsClient_checkItems (favouring_env (\<lambda>n. True))
      [mention ''3'' ''103'', mention ''2'' ''102'', mention ''1'' ''2''] idle_monitor))
     = [''1'', ''3'']"
  by (simp add: notification_defs favouring_env_def mention_def idle_monitor_def)

theorem notifications_oldest_first_witness:
  "\<not> isProcessing idle_monitor
   \<and> independent [mention ''n1'' ''101'', mention ''n2'' ''102'', mention ''n3'' ''103'']
   \<and> executionsOf (trace (NotificationsClient_checkItems (favouring_env (\<lambda>n. True))
      [mention ''n3'' ''103'', mention ''n2'' ''102'', mention ''n1'' ''101''] idle_monitor))
     = [''n1'', ''n2'', ''n3'']
   \<and> {''n1'', ''n2'', ''n3''} \<subseteq> processedItems (NotificationsClient_checkItems
      (favouring_env (\<lambda>n. True))
      [mention ''n3'' ''103'', mention ''n2'' ''102'', mention ''n1'' ''101''] idle_monitor)"
proof -
  let ?e = "favouring_env (\<lambda>n. True)"
  let ?f = "[mention ''n3'' ''103'', mention ''n2'' ''102'', mention ''n1'' ''101'']"
  have a: "\<not> isProcessing idle_monitor"
    by (simp add: idle_monitor_def)
  have b: "independent (rev ?f)"
    by (simp add: touched_def postIds_def mention_def)
  have c: "list_all (\<lambda>n. n_id n \<notin> processedItems idle_monitor \<union> memory idle_monitor) ?f"
    by (simp add: idle_monitor_def)
  have d: "list_all (\<lambda>n. generateTweetActions_notification ?e n \<noteq> None) ?f"
    by (simp add: favouring_env_def)
  have t: "newEvents idle_monitor (NotificationsClient_checkItems ?e ?f idle_monitor)
      = trace (NotificationsClient_checkItems ?e ?f idle_monitor)"
    by (simp add: newEvents_def idle_monitor_def)
  from notifications_oldest_first [OF a b c d] a b show ?thesis
    unfolding t by (simp add: mention_def)
qed

section \<open>Properties of the encryption service\<close>

definition isScalar :: "nat \<Rightarrow> bool" where
  "isScalar cp = (cp < 0x110000 \<and> \<not> (0xD800 \<le> cp \<and> cp \<le> 0xDFFF))"

lemma unat_byte: "n < 256 \<Longrightarrow> unat (of_nat n :: byte) = n"
  by (simp add: unat_of_nat)

lemma unit_bound: "unat (u :: utf16) < 65536"
  using unsigned_less [of u, where 'a = nat] by simp
lemma decode_1:
  assumes "cp < 0x80"
  shows "utf8_decode (utf8_sequence cp @ rest) = cp # utf8_decode rest"
  using assms by (simp add: utf8_sequence_def unat_byte)

lemma low_part: "r < m \<Longrightarrow> (k * m + r) mod m = (r::nat)"
  by simp

lemma decode_2:
  assumes "0x80 \<le> cp" "cp < 0x800"
  shows "utf8_decode (utf8_sequence cp @ rest) = cp # utf8_decode rest"
proof -
  define q where "q = cp div 0x40"
  define r where "r = cp mod 0x40"
  have cp: "cp = q * 0x40 + r" and r: "r < 0x40"
    by (simp_all add: q_def r_def)
  have q: "2 \<le> q" "q < 0x20"
    using assms cp r by linarith+
  define a where "a = 0xC0 + q"
  define b where "b = 0x80 + r"
  have ra: "0xC2 \<le> a" "a \<le> 0xDF" and rb: "0x80 \<le> b" "b \<le> 0xBF"
    using q r by (simp_all add: a_def b_def)
  have ma: "a mod 0x20 = q"
    using low_part [of q "0x20" 6] q by (simp add: a_def)
  have mb: "b mod 0x40 = r"
    using low_part [of r "0x40" 2] r by (simp add: b_def)
  have ua: "unat (of_nat a :: byte) = a" and ub: "unat (of_nat b :: byte) = b"
    using ra rb by (simp_all add: unat_byte)
  have s: "utf8_sequence cp = [of_nat a, of_nat b]"
    using assms by (simp add: utf8_sequence_def a_def b_def q_def r_def)
  show ?thesis
    unfolding s using ra rb by (simp add: ua ub ma mb cp between_def Let_def)
qed

lemma decode_3:
  assumes "0x800 \<le> cp" "cp < 0x10000" "\<not> (0xD800 \<le> cp \<and> cp \<le> 0xDFFF)"
  shows "utf8_decode (utf8_sequence cp @ rest) = cp # utf8_decode rest"
proof -
  define d where "d = cp div 0x40"
  define r where "r = cp mod 0x40"
  define q1 where "q1 = d div 0x40"
  define q2 where "q2 = d mod 0x40"
  have cp: "cp = d * 0x40 + r" and r: "r < 0x40"
    by (simp_all add: d_def r_def)
  have d: "d = q1 * 0x40 + q2" and q2: "q2 < 0x40"
    by (simp_all add: q1_def q2_def)
  have top: "cp div 0x1000 = q1"
    using div_mult2_eq [of cp "0x40" "0x40"] by (simp add: q1_def d_def)
  have q1: "q1 < 0x10"
    using assms cp d r q2 by linarith
  have lo: "q1 = 0 \<Longrightarrow> 0x20 \<le> q2"
    using assms cp d r by linarith
  have hi: "q1 = 0x0D \<Longrightarrow> q2 < 0x20"
    using assms cp d r q2 by linarith
  define a where "a = 0xE0 + q1"
  define b where "b = 0x80 + q2"
  define c where "c = 0x80 + r"
  have ra: "0xE0 \<le> a" "a \<le> 0xEF" and rb: "0x80 \<le> b" "b \<le> 0xBF"
    and rc: "0x80 \<le> c" "c \<le> 0xBF"
    using q1 q2 r by (simp_all add: a_def b_def c_def)
  have ma: "a mod 0x10 = q1"
    using low_part [of q1 "0x10" 14] q1 by (simp add: a_def)
  have mb: "b mod 0x40 = q2"
    using low_part [of q2 "0x40" 2] q2 by (simp add: b_def)
  have mc: "c mod 0x40 = r"
    using low_part [of r "0x40" 2] r by (simp add: c_def)
  have ua: "unat (of_nat a :: byte) = a" and ub: "unat (of_nat b :: byte) = b"
    and uc: "unat (of_nat c :: byte) = c"
    using ra rb rc by (simp_all add: unat_byte)
  have s: "utf8_sequence cp = [of_nat a, of_nat b, of_nat c]"
    using assms by (simp add: utf8_sequence_def top a_def b_def c_def q2_def d_def r_def)
  have g: "between (if a = 0xE0 then 0xA0 else 0x80) (if a = 0xED then 0x9F else 0xBF) (of_nat b)"
    unfolding between_def ub using q2 lo hi by (auto simp: a_def b_def)
  have v: "q1 * 0x1000 + q2 * 0x40 + r = cp"
    by (simp add: cp d)
  show ?thesis
    unfolding s using ra rc g by (simp add: ua uc ub ma mb mc v between_def Let_def)
qed

lemma decode_4:
  assumes "0x10000 \<le> cp" "cp < 0x110000"
  shows "utf8_decode (utf8_sequence cp @ rest) = cp # utf8_decode rest"
proof -
  define d1 where "d1 = cp div 0x40"
  define r where "r = cp mod 0x40"
  define d2 where "d2 = d1 div 0x40"
  define q3 where "q3 = d1 mod 0x40"
  define q1 where "q1 = d2 div 0x40"
  define q2 where "q2 = d2 mod 0x40"
  have cp: "cp = d1 * 0x40 + r" and r: "r < 0x40"
    by (simp_all add: d1_def r_def)
  have d1: "d1 = d2 * 0x40 + q3" and q3: "q3 < 0x40"
    by (simp_all add: d2_def q3_def)
  have d2: "d2 = q1 * 0x40 + q2" and q2: "q2 < 0x40"
    by (simp_all add: q1_def q2_def)
  have mid: "cp div 0x1000 = d2"
    using div_mult2_eq [of cp "0x40" "0x40"] by (simp add: d2_def d1_def)
  have top: "cp div 0x40000 = q1"
    using div_mult2_eq [of cp "0x1000" "0x40"] by (simp add: mid q1_def)
  have q1: "q1 \<le> 4"
    using assms cp d1 d2 by linarith
  have lo: "q1 = 0 \<Longrightarrow> 0x10 \<le> q2"
    using assms cp d1 d2 r q3 by linarith
  have hi: "q1 = 4 \<Longrightarrow> q2 < 0x10"
    using assms cp d1 d2 by linarith
  define a where "a = 0xF0 + q1"
  define b where "b = 0x80 + q2"
  define c where "c = 0x80 + q3"
  define e where "e = 0x80 + r"
  have ra: "0xF0 \<le> a" "a \<le> 0xF4" and rb: "0x80 \<le> b" "b \<le> 0xBF"
    and rc: "0x80 \<le> c" "c \<le> 0xBF" and re: "0x80 \<le> e" "e \<le> 0xBF"
    using q1 q2 q3 r by (simp_all add: a_def b_def c_def e_def)
  have ma: "a mod 0x08 = q1"
    using low_part [of q1 "0x08" 30] q1 by (simp add: a_def)
  have mb: "b mod 0x40 = q2"
    using low_part [of q2 "0x40" 2] q2 by (simp add: b_def)
  have mc: "c mod 0x40 = q3"
    using low_part [of q3 "0x40" 2] q3 by (simp add: c_def)
  have me: "e mod 0x40 = r"
    using low_part [of r "0x40" 2] r by (simp add: e_def)
  have ua: "unat (of_nat a :: byte) = a" and ub: "unat (of_nat b :: byte) = b"
    and uc: "unat (of_nat c :: byte) = c" and ue: "unat (of_nat e :: byte) = e"
    using ra rb rc re by (simp_all add: unat_byte)
  have s: "utf8_sequence cp = [of_nat a, of_nat b, of_nat c, of_nat e]"
    using assms
    by (simp add: utf8_sequence_def top mid a_def b_def c_def e_def q2_def q3_def d1_def r_def)
  have g: "between (if a = 0xF0 then 0x90 else 0x80) (if a = 0xF4 then 0x8F else 0xBF) (of_nat b)"
    unfolding between_def ub using q2 lo hi by (auto simp: a_def b_def)
  have v: "q1 * 0x40000 + q2 * 0x1000 + q3 * 0x40 + r = cp"
    by (simp add: cp d1 d2)
  show ?thesis
    unfolding s using ra rc re g by (simp add: ua ub uc ue ma mb mc me v between_def Let_def)
qed

lemma decode_sequence:
  assumes "isScalar cp"
  shows "utf8_decode (utf8_sequence cp @ rest) = cp # utf8_decode rest"
proof -
  consider "cp < 0x80" | "0x80 \<le> cp \<and> cp < 0x800" | "0x800 \<le> cp \<and> cp < 0x10000"
    | "0x10000 \<le> cp \<and> cp < 0x110000"
    using assms unfolding isScalar_def by linarith
  then show ?thesis
    using assms decode_1 decode_2 decode_3 decode_4 unfolding isScalar_def by cases blast+
qed

lemma codePoints_scalar: "list_all isScalar (codePoints s)"
proof (induction s rule: codePoints.induct)
  case 1
  show ?case by simp
next
  case (2 u)
  show ?case using unit_bound [of u]
    by (auto simp: isScalar_def isHighSurrogate_def isLowSurrogate_def)
next
  case (3 u v rest)
  have "isScalar (0x10000 + (unat u - 0xD800) * 0x400 + (unat v - 0xDC00))"
    if "isHighSurrogate (unat u)" "isLowSurrogate (unat v)"
    using that unfolding isScalar_def isHighSurrogate_def isLowSurrogate_def by linarith
  moreover have "isScalar (if isHighSurrogate (unat u) \<or> isLowSurrogate (unat u) then 0xFFFD else unat u)"
    using unit_bound [of u] by (auto simp: isScalar_def isHighSurrogate_def isLowSurrogate_def)
  ultimately show ?case using 3 by simp
qed

lemma utf8_decode_sequences:
  "list_all isScalar cps \<Longrightarrow> utf8_decode (concat (map utf8_sequence cps)) = cps"
  by (induction cps) (simp_all add: decode_sequence del: utf8_decode.simps(2))

text \<open>Decoding what was encoded gives the code points that were encoded.\<close>

lemma utf8_decode_bytes: "utf8_decode (utf8_bytes s) = codePoints s"
  unfolding utf8_bytes_def by (rule utf8_decode_sequences) (rule codePoints_scalar)

lemma utf16_units_pair:
  assumes "isHighSurrogate (unat u)" "isLowSurrogate (unat v)"
  shows "utf16_units (0x10000 + (unat u - 0xD800) * 0x400 + (unat v - 0xDC00)) = [u, v]"
proof -
  define h where "h = unat u - 0xD800"
  define l where "l = unat v - 0xDC00"
  have u: "unat u = 0xD800 + h" and v: "unat v = 0xDC00 + l" and l: "l < 0x400"
    using assms unfolding h_def l_def isHighSurrogate_def isLowSurrogate_def by linarith+
  have dv: "(h * 0x400 + l) div 0x400 = h" and md: "(h * 0x400 + l) mod 0x400 = l"
    using l by simp_all
  have "utf16_units (0x10000 + h * 0x400 + l)
      = [of_nat (0xD800 + h), of_nat (0xDC00 + l)]"
    using dv md by (simp add: utf16_units_def add.assoc del: of_nat_add)
  also have "\<dots> = [u, v]"
    unfolding u [symmetric] v [symmetric] by simp
  finally show ?thesis by (simp add: h_def l_def)
qed

lemma utf16_units_unit:
  "utf16_units (if isHighSurrogate (unat u) \<or> isLowSurrogate (unat u) then 0xFFFD else unat u)
     = [if isHighSurrogate (unat u) \<or> isLowSurrogate (unat u) then 0xFFFD else u]"
  using unit_bound [of u] by (simp add: utf16_units_def)

lemma utf16_units_codePoints: "concat (map utf16_units (codePoints s)) = toWellFormed s"
proof (induction s rule: codePoints.induct)
  case 1
  show ?case by simp
next
  case (2 u)
  show ?case using utf16_units_unit [of u] by simp
next
  case (3 u v rest)
  show ?case
  proof (cases "isHighSurrogate (unat u) \<and> isLowSurrogate (unat v)")
    case True
    with 3 show ?thesis by (simp add: utf16_units_pair del: of_nat_add of_nat_mult)
  next
    case False
    define cp where
      "cp = (if isHighSurrogate (unat u) \<or> isLowSurrogate (unat u) then 0xFFFD else unat u)"
    define w where
      "w = (if isHighSurrogate (unat u) \<or> isLowSurrogate (unat u) then 0xFFFD else u)"
    have uw: "utf16_units cp = [w]"
      unfolding cp_def w_def by (rule utf16_units_unit)
    have c: "codePoints (u # v # rest) = cp # codePoints (v # rest)"
      using False by (auto simp: cp_def)
    have t: "toWellFormed (u # v # rest) = w # toWellFormed (v # rest)"
      using False by (auto simp: w_def)
    have ih: "concat (map utf16_units (codePoints (v # rest))) = toWellFormed (v # rest)"
      using 3 False by blast
    show ?thesis
      unfolding c t by (simp add: uw ih)
  qed
qed

text \<open>Encoding and decoding replaces the surrogates without partner, and nothing else.\<close>

lemma utf8_text_bytes: "utf8_text (utf8_bytes s) = toWellFormed s"
  by (simp add: utf8_text_def utf8_decode_bytes utf16_units_codePoints)

lemma toWellFormed_isWellFormed: "isWellFormed s \<Longrightarrow> toWellFormed s = s"
  by (induction s rule: isWellFormed.induct) (auto split: if_splits)

lemma hexDigit_table:
  "list_all (\<lambda>n. hexValue (hexDigit n) = Some n \<and> hexDigit n \<noteq> CHR '':'')
     [0, 1, 2, 3, 4, 5, 6, 7, 8, 9, 10, 11, 12, 13, 14, 15]"
  by (simp add: hexDigit_def hexValue_def)

lemma below_16: "n < 16 \<Longrightarrow> n \<in> set [0, 1, 2, 3, 4, 5, 6, 7, 8, 9, 10, 11, 12, 13, 14, 15::nat]"
  by (simp only: set_simps insert_iff empty_iff) arith

lemma hexValue_hexDigit: "n < 16 \<Longrightarrow> hexValue (hexDigit n) = Some n"
  using hexDigit_table below_16 [of n] unfolding list_all_iff by blast

lemma hexDigit_not_colon: "n < 16 \<Longrightarrow> hexDigit n \<noteq> CHR '':''"
  using hexDigit_table below_16 [of n] unfolding list_all_iff by blast

lemma byte_nibbles: "unat (b :: byte) div 16 < 16 \<and> unat b mod 16 < 16"
proof -
  have "unat b < 256" using unsigned_less [of b, where 'a = nat] by simp
  then show ?thesis by simp
qed

lemma fromHex_toHex: "fromHex (toHex bs) = bs"
proof (induction bs)
  case Nil
  show ?case by (simp add: toHex_def)
next
  case (Cons b bs)
  have t: "toHex (b # bs) = hexDigit (unat b div 16) # hexDigit (unat b mod 16) # toHex bs"
    by (simp add: toHex_def)
  have "(of_nat (unat b div 16 * 16 + unat b mod 16) :: byte) = b"
    by simp
  then show ?case
    using Cons.IH byte_nibbles [of b] by (simp add: t hexValue_hexDigit)
qed

lemma colon_free_toHex: "CHR '':'' \<notin> set (toHex bs)"
proof (induction bs)
  case Nil
  show ?case by (simp add: toHex_def)
next
  case (Cons b bs)
  have t: "toHex (b # bs) = hexDigit (unat b div 16) # hexDigit (unat b mod 16) # toHex bs"
    by (simp add: toHex_def)
  have "hexDigit (unat b div 16) \<noteq> CHR '':''" "hexDigit (unat b mod 16) \<noteq> CHR '':''"
    using byte_nibbles [of b] by (simp_all add: hexDigit_not_colon)
  then show ?case
    using Cons.IH unfolding t by auto
qed

lemma split_colon_last: "CHR '':'' \<notin> set s \<Longrightarrow> split_colon s = [s]"
  by (induction s) auto

lemma split_colon_part:
  "CHR '':'' \<notin> set s \<Longrightarrow> split_colon (s @ CHR '':'' # rest) = s # split_colon rest"
  by (induction s) auto

lemma split_colon_three:
  assumes "CHR '':'' \<notin> set a" "CHR '':'' \<notin> set b" "CHR '':'' \<notin> set c"
  shows "split_colon (a @ '':'' @ b @ '':'' @ c) = [a, b, c]"
  using assms by (simp add: split_colon_part split_colon_last)

lemma even_length_toHex: "even (length (toHex bs))"
  by (induction bs) (simp_all add: toHex_def)

text \<open>
  What is assumed of the primitive: the decipher accepts the initialisation vector and the
  tag of what was enciphered under the same key, and gives the plaintext back.
\<close>

definition gcm_correct :: "cipher \<Rightarrow> bool" where
  "gcm_correct c =
     (\<forall>key iv plaintext encrypted authTag.
        gcm_encrypt c key iv plaintext = (encrypted, authTag) \<longrightarrow>
        gcm_setup c key iv authTag = None
        \<and> gcm_decrypt c key iv authTag encrypted = Inr plaintext)"

text \<open>
  For every string, \<open>decrypt\<close> of what \<open>encrypt\<close> returned is the string with U+FFFD in
  place of each surrogate that has no partner.
\<close>

lemma decrypt_encrypt_toWellFormed:
  assumes "gcm_correct c"
  shows "\<exists>encrypted authTag.
           encrypt c (Some key) iv plaintext
             = Inr (toHex iv @ '':'' @ toHex authTag @ '':'' @ toHex encrypted)
         \<and> decrypt c (Some key) (toHex iv @ '':'' @ toHex authTag @ '':'' @ toHex encrypted)
             = Inr (toWellFormed plaintext)"
proof -
  obtain encrypted authTag where
    g: "gcm_encrypt c key iv (utf8_bytes plaintext) = (encrypted, authTag)"
    by (metis surj_pair)
  have u: "gcm_setup c key iv authTag = None"
    and d: "gcm_decrypt c key iv authTag encrypted = Inr (utf8_bytes plaintext)"
    using assms g unfolding gcm_correct_def by blast+
  have e: "encrypt c (Some key) iv plaintext
      = Inr (toHex iv @ '':'' @ toHex authTag @ '':'' @ toHex encrypted)"
    using g by (simp add: encrypt_def)
  have s: "split_colon (toHex iv @ '':'' @ toHex authTag @ '':'' @ toHex encrypted)
      = [toHex iv, toHex authTag, toHex encrypted]"
    by (rule split_colon_three) (rule colon_free_toHex)+
  have "decrypt c (Some key) (toHex iv @ '':'' @ toHex authTag @ '':'' @ toHex encrypted)
      = Inr (toWellFormed plaintext)"
    unfolding decrypt_def s
    by (simp add: fromHex_toHex u d utf8_text_bytes even_length_toHex)
  with e show ?thesis by blast
qed

text \<open>
  Claim C10, as the code has it. For every well-formed text (no surrogate without its
  partner), every key of an initialised service and every initialisation vector, given a
  primitive that deciphers what it enciphered, \<open>encrypt\<close> returns the triple
  \<open>iv:authTag:ciphertext\<close> in hex and \<open>decrypt\<close> of that triple under the same key
  returns the text.
\<close>

theorem decrypt_encrypt:
  assumes "gcm_correct c" and "isWellFormed plaintext"
  shows "\<exists>encrypted authTag.
           encrypt c (Some key) iv plaintext
             = Inr (toHex iv @ '':'' @ toHex authTag @ '':'' @ toHex encrypted)
         \<and> decrypt c (Some key) (toHex iv @ '':'' @ toHex authTag @ '':'' @ toHex encrypted)
             = Inr plaintext"
  using decrypt_encrypt_toWellFormed [OF assms(1), of key iv plaintext]
    toWellFormed_isWellFormed [OF assms(2)] by simp

definition toy_cipher :: cipher where
  "toy_cipher =
     \<lparr>gcm_encrypt = (\<lambda>key iv plaintext. (map (\<lambda>b. b + 1) plaintext, [42])),
      gcm_setup = (\<lambda>key iv authTag.
        if authTag = [42] then None else Some (Error ''Invalid authentication tag'')),
      gcm_decrypt = (\<lambda>key iv authTag encrypted. Inr (map (\<lambda>b. b - 1) encrypted))\<rparr>"

lemma toy_cipher_correct: "gcm_correct toy_cipher"
  by (auto simp: gcm_correct_def toy_cipher_def map_idI)

text \<open>
  The claim C10 as stated fails: the text \<open>a\<close>, U+D800, \<open>b\<close> is enciphered as the bytes
  \<open>61 EF BF BD 62\<close> and comes back as \<open>a\<close>, U+FFFD, \<open>b\<close>. The primitive here adds one
  to each byte; by \<open>decrypt_encrypt_toWellFormed\<close> the text that comes back is the same
  with every primitive that deciphers what it enciphered.
\<close>

theorem lone_surrogate_is_replaced:
  "gcm_correct toy_cipher
   \<and> utf8_bytes [0x61, 0xD800, 0x62] = [0x61, 0xEF, 0xBF, 0xBD, 0x62]
   \<and> encrypt toy_cipher (Some [7]) [10, 255] [0x61, 0xD800, 0x62] = Inr ''0aff:2a:62f0c0be63''
   \<and> decrypt toy_cipher (Some [7]) ''0aff:2a:62f0c0be63'' = Inr [0x61, 0xFFFD, 0x62]"
proof -
  have b: "utf8_bytes [0x61, 0xD800, 0x62] = [0x61, 0xEF, 0xBF, 0xBD, 0x62]"
    by (simp add: utf8_bytes_def utf8_sequence_def isHighSurrogate_def isLowSurrogate_def)
  have e: "encrypt toy_cipher (Some [7]) [10, 255] [0x61, 0xD800, 0x62]
      = Inr ''0aff:2a:62f0c0be63''"
    by (simp add: encrypt_def b toy_cipher_def toHex_def hexDigit_def)
  have d: "decrypt toy_cipher (Some [7]) ''0aff:2a:62f0c0be63'' = Inr [0x61, 0xFFFD, 0x62]"
    by (simp add: decrypt_def toy_cipher_def hexValue_def utf8_text_def utf16_units_def
        between_def Let_def)
  from toy_cipher_correct b e d show ?thesis by simp
qed

theorem decrypt_encrypt_witness:
  "gcm_correct toy_cipher
   \<and> isWellFormed [0x68, 0xE9, 0x20AC, 0xD83D, 0xDE00]
   \<and> encrypt toy_cipher (Some [7]) [10, 255] [0x68, 0xE9, 0x20AC, 0xD83D, 0xDE00]
       = Inr ''0aff:2a:69c4aae383adf1a09981''
   \<and> decrypt toy_cipher (Some [7]) ''0aff:2a:69c4aae383adf1a09981''
       = Inr [0x68, 0xE9, 0x20AC, 0xD83D, 0xDE00]"
proof -
  let ?s = "[0x68, 0xE9, 0x20AC, 0xD83D, 0xDE00] :: js_string"
  have w: "isWellFormed ?s"
    by (simp add: isHighSurrogate_def isLowSurrogate_def)
  have b: "utf8_bytes ?s = [0x68, 0xC3, 0xA9, 0xE2, 0x82, 0xAC, 0xF0, 0x9F, 0x98, 0x80]"
    by (simp add: utf8_bytes_def utf8_sequence_def isHighSurrogate_def isLowSurrogate_def)
  have e: "encrypt toy_cipher (Some [7]) [10, 255] ?s = Inr ''0aff:2a:69c4aae383adf1a09981''"
    by (simp add: encrypt_def b toy_cipher_def toHex_def hexDigit_def)
  from decrypt_encrypt [OF toy_cipher_correct w, of "[7]" "[10, 255]"]
  obtain encrypted authTag where
    a: "encrypt toy_cipher (Some [7]) [10, 255] ?s
          = Inr (toHex [10, 255] @ '':'' @ toHex authTag @ '':'' @ toHex encrypted)"
    and r: "decrypt toy_cipher (Some [7])
              (toHex [10, 255] @ '':'' @ toHex authTag @ '':'' @ toHex encrypted)
          = Inr ?s"
    by blast
  from a e have "toHex [10, 255] @ '':'' @ toHex authTag @ '':'' @ toHex encrypted
      = ''0aff:2a:69c4aae383adf1a09981''"
    by simp
  with r e w toy_cipher_correct show ?thesis by simp
qed

end
